theory Spec2Isabelle
  imports Complex_Main
begin

section \<open>PgProbe: query safety, plan analysis and the connection manager\<close>

text \<open>
  The development embeds the pure parts of \<^verbatim>\<open>src/tools/query.ts\<close> and
  \<^verbatim>\<open>src/tools/optimization.ts\<close> and the control flow of the
  \<^verbatim>\<open>DatabaseManager\<close> class (database.ts).

  Conventions.
  \<^item> A JavaScript string is a \<^typ>\<open>string\<close>; the model covers the code units 0..255.
    In that range the white space of \<^verbatim>\<open>\s\<close> and of \<^verbatim>\<open>trim()\<close> is 9..13, 32 and 160, the
    line terminators excluded by \<^verbatim>\<open>.\<close> are 10 and 13, and the word characters of
    \<^verbatim>\<open>\w\<close> and \<^verbatim>\<open>\b\<close> are the ASCII letters, the digits and the underscore.
  \<^item> A JavaScript number read from a plan is a \<^typ>\<open>rat\<close> (comparison of doubles is
    comparison of their values). The conversion of a number to text in a template literal
    belongs to the runtime and is a parameter \<open>ns\<close> of every function that formats a number.
  \<^item> A field that may be \<^verbatim>\<open>undefined\<close> is an \<^typ>\<open>'a option\<close>.
  \<^item> \<^verbatim>\<open>throw\<close> is the left injection of a sum.
\<close>

subsection \<open>Characters\<close>

definition is_word_char :: "char \<Rightarrow> bool" where
  \<comment> \<open>\<^verbatim>\<open>\w\<close>: \<^verbatim>\<open>[A-Za-z0-9_]\<close>\<close>
  "is_word_char c =
     (let n = (of_char c :: nat)
      in (65 \<le> n \<and> n \<le> 90) \<or> (97 \<le> n \<and> n \<le> 122) \<or> (48 \<le> n \<and> n \<le> 57) \<or> n = 95)"

definition is_space :: "char \<Rightarrow> bool" where
  \<comment> \<open>\<^verbatim>\<open>\s\<close> and the characters removed by \<^verbatim>\<open>trim()\<close>\<close>
  "is_space c = (let n = (of_char c :: nat) in (9 \<le> n \<and> n \<le> 13) \<or> n = 32 \<or> n = 160)"

definition is_line_terminator :: "char \<Rightarrow> bool" where
  \<comment> \<open>the characters \<^verbatim>\<open>.\<close> does not match\<close>
  "is_line_terminator c = (let n = (of_char c :: nat) in n = 10 \<or> n = 13)"

definition upper_code :: "char \<Rightarrow> nat" where
  \<comment> \<open>the code of the canonical (upper case) form the \<^verbatim>\<open>i\<close> flag compares\<close>
  "upper_code c = (let n = (of_char c :: nat) in if 97 \<le> n \<and> n \<le> 122 then n - 32 else n)"

definition ci_eq :: "char \<Rightarrow> char \<Rightarrow> bool" where
  \<comment> \<open>an input character against an ASCII pattern character under the \<^verbatim>\<open>i\<close> flag\<close>
  "ci_eq c p = (upper_code c = upper_code p)"

definition head_opt :: "string \<Rightarrow> char option" where
  "head_opt s = (case s of [] \<Rightarrow> None | c # cs \<Rightarrow> Some c)"

definition word_at :: "char option \<Rightarrow> bool" where
  \<comment> \<open>is there a word character at a position; the positions before the first and after the
      last character hold none\<close>
  "word_at a = (case a of None \<Rightarrow> False | Some c \<Rightarrow> is_word_char c)"

definition boundary :: "char option \<Rightarrow> char option \<Rightarrow> bool" where
  \<comment> \<open>\<^verbatim>\<open>\b\<close> between the character before and the character after a position\<close>
  "boundary a b = (word_at a \<noteq> word_at b)"

fun ci_prefix :: "string \<Rightarrow> string \<Rightarrow> string option" where
  \<comment> \<open>a literal matched at the start of the text under the \<^verbatim>\<open>i\<close> flag; the text after it\<close>
  "ci_prefix [] s = Some s"
| "ci_prefix (p # ps) [] = None"
| "ci_prefix (p # ps) (c # cs) = (if ci_eq c p then ci_prefix ps cs else None)"

definition keyword_here :: "string list \<Rightarrow> char option \<Rightarrow> string \<Rightarrow> bool" where
  \<comment> \<open>\<^verbatim>\<open>\b(K1|K2|...)\b\<close> matched at one position: \<open>prev\<close> is the character before it\<close>
  "keyword_here alts prev s =
     (boundary prev (head_opt s) \<and>
      list_ex (\<lambda>k. case ci_prefix k s of
                       None \<Rightarrow> False
                     | Some rest \<Rightarrow>
                         boundary (if k = [] then prev else Some (last (take (length k) s)))
                           (head_opt rest)) alts)"

fun test_from :: "string list \<Rightarrow> char option \<Rightarrow> string \<Rightarrow> bool" where
  \<comment> \<open>the search of \<^verbatim>\<open>test\<close>: the positions are tried from left to right\<close>
  "test_from alts prev [] = keyword_here alts prev []"
| "test_from alts prev (c # cs) = (keyword_here alts prev (c # cs) \<or> test_from alts (Some c) cs)"

definition keyword_test :: "string list \<Rightarrow> string \<Rightarrow> bool" where
  \<comment> \<open>\<^verbatim>\<open>/\b(K1|K2|...)\b/i.test(s)\<close>\<close>
  "keyword_test alts s = test_from alts None s"

subsection \<open>SQL safety (query.ts)\<close>

datatype error = Error string
  \<comment> \<open>\<^verbatim>\<open>new Error(message)\<close>, and what the driver throws, by its message\<close>

function strip_line_comments :: "string \<Rightarrow> string" where
  \<comment> \<open>\<^verbatim>\<open>.replace(/--.*$/gm, "")\<close>: from two dashes up to the next line terminator or the end\<close>
  "strip_line_comments [] = []"
| "strip_line_comments [c] = [c]"
| "strip_line_comments (c # d # cs) =
     (if c = CHR ''-'' \<and> d = CHR ''-''
      then strip_line_comments (dropWhile (\<lambda>x. \<not> is_line_terminator x) cs)
      else c # strip_line_comments (d # cs))"
  by pat_completeness auto
termination
  by (relation "measure length") (auto simp: length_dropWhile_le le_imp_less_Suc less_Suc_eq_le intro: le_SucI)

fun find_close :: "string \<Rightarrow> string option" where
  \<comment> \<open>\<^verbatim>\<open>[\s\S]*?\*\/\<close>: the text after the first \<^verbatim>\<open>*/\<close>, if there is one\<close>
  "find_close [] = None"
| "find_close [c] = None"
| "find_close (c # d # cs) =
     (if c = CHR ''*'' \<and> d = CHR ''/'' then Some cs else find_close (d # cs))"

function strip_block_comments :: "string \<Rightarrow> string" where
  \<comment> \<open>\<^verbatim>\<open>.replace(/\/\*[\s\S]*?\*\//g, "")\<close>: an opener with no closer after it stays\<close>
  "strip_block_comments [] = []"
| "strip_block_comments [c] = [c]"
| "strip_block_comments (c # d # cs) =
     (if c = CHR ''/'' \<and> d = CHR ''*''
      then (case find_close cs of
              Some rest \<Rightarrow> strip_block_comments rest
            | None \<Rightarrow> c # strip_block_comments (d # cs))
      else c # strip_block_comments (d # cs))"
  by pat_completeness auto
termination
proof (relation "measure length")
  have shorter: "find_close s = Some r \<Longrightarrow> length r < length s" for s r
    by (induction s arbitrary: r rule: find_close.induct) (auto split: if_splits)
  show "wf (measure length)" by simp
  show "(rest, c # d # cs) \<in> measure length"
    if "c = CHR ''/'' \<and> d = CHR ''*''" and "find_close cs = Some rest" for c d cs rest
    using shorter [OF that(2)] by simp
qed simp_all

definition pattern1 :: "string \<times> string list" where
  "pattern1 =
     ([CHR 0x5C] @ ''b(INSERT|UPDATE|DELETE|DROP|ALTER|CREATE|TRUNCATE|GRANT|REVOKE)'' @ [CHR 0x5C] @ ''b'',
      [''INSERT'', ''UPDATE'', ''DELETE'', ''DROP'', ''ALTER'', ''CREATE'', ''TRUNCATE'', ''GRANT'',
       ''REVOKE''])"

definition pattern2 :: "string \<times> string list" where
  "pattern2 = ([CHR 0x5C] @ ''b(COPY)'' @ [CHR 0x5C] @ ''b'', [''COPY''])"

definition pattern3 :: "string \<times> string list" where
  "pattern3 =
     ([CHR 0x5C] @ ''b(VACUUM|REINDEX|CLUSTER)'' @ [CHR 0x5C] @ ''b'',
      [''VACUUM'', ''REINDEX'', ''CLUSTER''])"

definition forbidden :: "(string \<times> string list) list" where
  \<comment> \<open>each pattern with its \<^verbatim>\<open>source\<close> and its alternatives\<close>
  "forbidden = [pattern1, pattern2, pattern3]"

definition cleaned :: "string \<Rightarrow> string" where
  "cleaned sql = strip_block_comments (strip_line_comments sql)"

fun first_match :: "(string \<times> string list) list \<Rightarrow> string \<Rightarrow> string option" where
  \<comment> \<open>the loop over the patterns: the source of the first one that matches\<close>
  "first_match [] s = None"
| "first_match ((src, alts) # ps) s = (if keyword_test alts s then Some src else first_match ps s)"

definition forbidden_message :: "string \<Rightarrow> string" where
  "forbidden_message src =
     ''Query contains forbidden operation. Only SELECT and read-only queries are allowed. '' @
     ''Detected pattern: '' @ src"

definition validateReadOnly :: "string \<Rightarrow> error + unit" where
  "validateReadOnly sql =
     (case first_match forbidden (cleaned sql) of
        Some src \<Rightarrow> Inl (Error (forbidden_message src))
      | None \<Rightarrow> Inr ())"

definition trim :: "string \<Rightarrow> string" where
  \<comment> \<open>\<^verbatim>\<open>sql.trim()\<close>\<close>
  "trim s = rev (dropWhile is_space (rev (dropWhile is_space s)))"

definition strip_semicolon :: "string \<Rightarrow> string" where
  \<comment> \<open>\<^verbatim>\<open>.replace(/;$/, "")\<close>: without the \<^verbatim>\<open>m\<close> flag \<^verbatim>\<open>$\<close> is the end of the text\<close>
  "strip_semicolon s = (if s \<noteq> [] \<and> last s = CHR '';'' then butlast s else s)"

definition trimmed :: "string \<Rightarrow> string" where
  "trimmed sql = strip_semicolon (trim sql)"

definition isSelect :: "string \<Rightarrow> bool" where
  \<comment> \<open>\<^verbatim>\<open>/^\s*SELECT/i.test(trimmed)\<close>\<close>
  "isSelect t = (ci_prefix ''SELECT'' (dropWhile is_space t) \<noteq> None)"

definition ensureLimit :: "(rat \<Rightarrow> string) \<Rightarrow> string \<Rightarrow> rat \<Rightarrow> string" where
  "ensureLimit ns sql limit =
     (let t = trimmed sql
      in if isSelect t \<and> \<not> keyword_test [''LIMIT''] t then t @ '' LIMIT '' @ ns limit else t)"

subsection \<open>Execution plans\<close>

text \<open>
  A plan object as the two analysers read it: the keys they look up, each at the type of
  the cast the code applies to it, \<open>None\<close> where the key is absent. \<open>Plan\<close> is the key of
  the envelope that the top level of the output of EXPLAIN carries.
\<close>

datatype plan = PlanObject
  (Plan: "plan option")
  (Node_Type: "string option")
  (Relation_Name: "string option")
  (Filter: "string option")
  (Sort_Key: "string list option")
  (Plan_Rows: "rat option")
  (Total_Cost: "rat option")
  (Plans: "plan list option")

definition or_zero :: "rat option \<Rightarrow> rat" where
  \<comment> \<open>\<^verbatim>\<open>(x as number) ?? 0\<close>\<close>
  "or_zero v = (case v of None \<Rightarrow> 0 | Some r \<Rightarrow> r)"

definition text_of :: "string option \<Rightarrow> string" where
  \<comment> \<open>a string field inside a template literal\<close>
  "text_of v = (case v of None \<Rightarrow> ''undefined'' | Some t \<Rightarrow> t)"

fun join :: "string \<Rightarrow> string list \<Rightarrow> string" where
  \<comment> \<open>\<^verbatim>\<open>xs.join(sep)\<close>\<close>
  "join sep [] = []"
| "join sep [x] = x"
| "join sep (x # y # ys) = x @ sep @ join sep (y # ys)"

definition innerPlan :: "plan \<Rightarrow> plan" where
  \<comment> \<open>\<^verbatim>\<open>plan["Plan"] ?? plan\<close>\<close>
  "innerPlan p = (case Plan p of Some q \<Rightarrow> q | None \<Rightarrow> p)"

subsection \<open>Plan warnings (query.ts)\<close>

definition seq_scan_warning :: "(rat \<Rightarrow> string) \<Rightarrow> plan \<Rightarrow> string" where
  "seq_scan_warning ns n =
     ''Sequential scan on '' @ [CHR 0x22] @ text_of (Relation_Name n) @ [CHR 0x22] @ '' with ~'' @
     ns (or_zero (Plan_Rows n)) @ '' estimated rows. Consider adding an index.''"

definition nested_loop_warning :: "(rat \<Rightarrow> string) \<Rightarrow> plan \<Rightarrow> string" where
  \<comment> \<open>the dash of the message, U+2013, is written as the three bytes of its UTF-8 form\<close>
  "nested_loop_warning ns n =
     ''Nested Loop join producing ~'' @ ns (or_zero (Plan_Rows n)) @
     '' rows. This may be slow '' @ [CHR 0xE2, CHR 0x80, CHR 0x93] @
     '' consider restructuring the query or adding indexes.''"

definition high_cost_warning :: "(rat \<Rightarrow> string) \<Rightarrow> plan \<Rightarrow> string" where
  "high_cost_warning ns n =
     ''High-cost '' @ text_of (Node_Type n) @ '' operation (cost: '' @
     ns (or_zero (Total_Cost n)) @ ''). May benefit from more work_mem or query restructuring.''"

definition node_warnings :: "(rat \<Rightarrow> string) \<Rightarrow> plan \<Rightarrow> string list \<Rightarrow> string list" where
  \<comment> \<open>the three conditionals of \<^verbatim>\<open>extractWarnings\<close> on the inner plan, in their order\<close>
  "node_warnings ns inner warnings =
     (let nodeType = Node_Type inner;
          w1 = (if nodeType = Some ''Seq Scan''
                then (if or_zero (Plan_Rows inner) > 10000
                      then warnings @ [seq_scan_warning ns inner] else warnings)
                else warnings);
          w2 = (if nodeType = Some ''Nested Loop''
                then (if or_zero (Plan_Rows inner) > 50000
                      then w1 @ [nested_loop_warning ns inner] else w1)
                else w1)
      in (if nodeType = Some ''Sort'' \<or> nodeType = Some ''Hash''
          then (if or_zero (Total_Cost inner) > 10000
                then w2 @ [high_cost_warning ns inner] else w2)
          else w2))"

function extractWarnings :: "(rat \<Rightarrow> string) \<Rightarrow> plan \<Rightarrow> string list \<Rightarrow> string list" where
  \<comment> \<open>the array \<open>warnings\<close> the code pushes to is passed in and returned; a plan object is
      never falsy, so the guard at the head of the function does not apply\<close>
  "extractWarnings ns p warnings =
     (let inner = innerPlan p; w = node_warnings ns inner warnings
      in case Plans inner of
           None \<Rightarrow> w
         | Some children \<Rightarrow> foldl (\<lambda>acc child. extractWarnings ns child acc) w children)"
  by pat_completeness auto
termination
proof -
  have elem: "c \<in> set cs \<Longrightarrow> size (c::plan) \<le> size_list size cs" for c cs
    by (induction cs) auto
  have below: "Plans q = Some cs \<Longrightarrow> c \<in> set cs \<Longrightarrow> size c < size q" for q cs c
    using elem [of c cs] by (cases q) simp
  have inner: "size (innerPlan p) \<le> size p" for p
    by (cases p) (simp add: innerPlan_def split: option.splits)
  have step: "Plans (innerPlan p) = Some cs \<Longrightarrow> c \<in> set cs \<Longrightarrow> size c < size p" for p cs c
    using below [of "innerPlan p" cs c] inner [of p] by simp
  show ?thesis
    by (relation "measure (\<lambda>(ns, p, warnings). size p)") (simp_all add: step)
qed

declare extractWarnings.simps [simp del]

subsection \<open>Index suggestions (optimization.ts)\<close>

datatype impact = high | medium | low

record IndexSuggestion =
  table :: "string option"
  columns :: "string list"
  reason :: string
  impact :: impact
  createStatement :: string

definition is_operator_char :: "char \<Rightarrow> bool" where
  \<comment> \<open>\<^verbatim>\<open>[=<>!]\<close>\<close>
  "is_operator_char c = (c = CHR ''='' \<or> c = CHR ''<'' \<or> c = CHR ''>'' \<or> c = CHR ''!'')"

definition column_here :: "string \<Rightarrow> (string \<times> string) option" where
  \<comment> \<open>\<^verbatim>\<open>\((\w+)\s*[=<>!]+\<close> matched at the start of the text: the group and the text after the
      match. Each of the three repetitions is greedy and none can give a character back: what
      follows the word characters is no word character, what follows the spaces is no space.\<close>
  "column_here s =
     (case s of
        [] \<Rightarrow> None
      | c # cs \<Rightarrow>
          (if c \<noteq> CHR ''('' then None
           else (let col = takeWhile is_word_char cs;
                     after_spaces = dropWhile is_space (dropWhile is_word_char cs)
                 in if col \<noteq> [] \<and> takeWhile is_operator_char after_spaces \<noteq> []
                    then Some (col, dropWhile is_operator_char after_spaces)
                    else None)))"

fun exec_from :: "string \<Rightarrow> (string \<times> string) option" where
  \<comment> \<open>\<^verbatim>\<open>regex.exec(filter)\<close> on the text from \<^verbatim>\<open>lastIndex\<close> on: the leftmost match\<close>
  "exec_from [] = None"
| "exec_from (c # cs) =
     (case column_here (c # cs) of Some m \<Rightarrow> Some m | None \<Rightarrow> exec_from cs)"

function extract_loop :: "string \<Rightarrow> string list \<Rightarrow> string list" where
  \<comment> \<open>the \<^verbatim>\<open>while\<close> loop of \<^verbatim>\<open>extractColumnsFromFilter\<close>; \<open>found\<close> is its array \<^verbatim>\<open>columns\<close>\<close>
  "extract_loop [] found = found"
| "extract_loop (c # cs) found =
     (case exec_from (c # cs) of
        None \<Rightarrow> found
      | Some (col, rest) \<Rightarrow>
          extract_loop rest
            (if col \<noteq> [] \<and> col \<notin> set found then found @ [col] else found))"
  by pat_completeness auto
termination
proof -
  have here: "column_here s = Some (col, rest) \<Longrightarrow> length rest < length s" for s col rest
    by (auto simp: column_here_def Let_def less_Suc_eq_le split: list.splits if_splits
             intro: order_trans [OF length_dropWhile_le]
                    order_trans [OF length_dropWhile_le order_trans [OF length_dropWhile_le]])
  have found: "exec_from s = Some (col, rest) \<Longrightarrow> length rest < length s" for s col rest
  proof (induction s)
    case Nil
    then show ?case by simp
  next
    case (Cons a s)
    then show ?case using here [of "a # s" col rest]
      by (auto split: option.splits)
  qed
  show ?thesis
    by (relation "measure (\<lambda>(s, found). length s)")
       (auto simp del: exec_from.simps dest: found)
qed

definition extractColumnsFromFilter :: "string \<Rightarrow> string list" where
  "extractColumnsFromFilter f = extract_loop f []"

definition seq_scan_rule ::
  "(rat \<Rightarrow> string) \<Rightarrow> plan \<Rightarrow> string \<Rightarrow> IndexSuggestion list \<Rightarrow> IndexSuggestion list" where
  \<comment> \<open>the first conditional of \<^verbatim>\<open>analyzePlanNode\<close>; a filter that is the empty string is falsy\<close>
  "seq_scan_rule ns node schema suggestions =
     (let estimatedRows = or_zero (Plan_Rows node)
      in case Filter node of
           None \<Rightarrow> suggestions
         | Some f \<Rightarrow>
             (if Node_Type node = Some ''Seq Scan'' \<and> f \<noteq> [] \<and> estimatedRows > 1000
              then (let cols = extractColumnsFromFilter f
                    in if length cols > 0
                       then suggestions @
                         [\<lparr>table = Relation_Name node,
                           columns = cols,
                           reason = ''Sequential scan with filter on '' @ join '', '' cols @
                             '' scanning ~'' @ ns estimatedRows @ '' rows'',
                           impact = (if estimatedRows > 100000 then high
                                     else if estimatedRows > 10000 then medium else low),
                           createStatement = ''CREATE INDEX idx_'' @ text_of (Relation_Name node) @
                             ''_'' @ join ''_'' cols @ '' ON '' @ schema @ ''.'' @
                             text_of (Relation_Name node) @ '' ('' @ join '', '' cols @ '');''\<rparr>]
                       else suggestions)
              else suggestions))"

definition after_last_dot :: "string \<Rightarrow> string" where
  "after_last_dot line = rev (takeWhile (\<lambda>c. c \<noteq> CHR ''.'') (rev line))"

function strip_qualifier :: "string \<Rightarrow> string" where
  \<comment> \<open>\<^verbatim>\<open>k.replace(/.*\./, "")\<close>: \<^verbatim>\<open>.\<close> stays inside a line, so the leftmost match starts at the
      first line that has a dot and, being greedy, ends at the last dot of that line\<close>
  "strip_qualifier [] = []"
| "strip_qualifier (c # cs) =
     (let line = takeWhile (\<lambda>x. \<not> is_line_terminator x) (c # cs);
          rest = dropWhile (\<lambda>x. \<not> is_line_terminator x) (c # cs)
      in if CHR ''.'' \<in> set line then after_last_dot line @ rest
         else (case rest of
                 [] \<Rightarrow> c # cs
               | t # tail \<Rightarrow> line @ t # strip_qualifier tail))"
  by pat_completeness auto
termination
proof -
  have shorter: "t # rest = dropWhile P s \<Longrightarrow> length rest < length s" for P s t and rest :: string
    using length_dropWhile_le [of P s] by (cases "dropWhile P s") auto
  show ?thesis
    by (relation "measure length") (auto simp del: dropWhile.simps dest: shorter shorter [OF sym])
qed

definition direction_here :: "string \<Rightarrow> string option" where
  \<comment> \<open>\<^verbatim>\<open>/ (ASC|DESC)/i\<close> matched at the start of the text: the text after the match\<close>
  "direction_here s =
     (case ci_prefix '' ASC'' s of Some rest \<Rightarrow> Some rest | None \<Rightarrow> ci_prefix '' DESC'' s)"

fun strip_direction :: "string \<Rightarrow> string" where
  \<comment> \<open>\<^verbatim>\<open>.replace(/ (ASC|DESC)/i, "")\<close>: the leftmost match only\<close>
  "strip_direction [] = []"
| "strip_direction (c # cs) =
     (case direction_here (c # cs) of Some rest \<Rightarrow> rest | None \<Rightarrow> c # strip_direction cs)"

definition sort_column :: "string \<Rightarrow> string" where
  "sort_column k = strip_direction (strip_qualifier k)"

definition sort_template :: "string \<Rightarrow> string list \<Rightarrow> string" where
  "sort_template schema cols =
     ''-- Consider adding an index to support this sort:'' @ [CHR 0x0A] @
     ''-- CREATE INDEX idx_sort_'' @ join ''_'' cols @ '' ON '' @ schema @
     ''.<table> ('' @ join '', '' cols @ '');''"

definition sort_rule ::
  "(rat \<Rightarrow> string) \<Rightarrow> plan \<Rightarrow> string \<Rightarrow> IndexSuggestion list \<Rightarrow> IndexSuggestion list" where
  \<comment> \<open>the second conditional of \<^verbatim>\<open>analyzePlanNode\<close>\<close>
  "sort_rule ns node schema suggestions =
     (let estimatedRows = or_zero (Plan_Rows node)
      in if Node_Type node = Some ''Sort''
         then (case Sort_Key node of
                 None \<Rightarrow> suggestions
               | Some sortKey \<Rightarrow>
                   (let cols = map sort_column sortKey
                    in if length cols > 0 \<and> estimatedRows > 5000
                       then suggestions @
                         [\<lparr>table = Some (case Relation_Name node of
                                          None \<Rightarrow> ''unknown'' | Some t \<Rightarrow> t),
                           columns = cols,
                           reason = ''Sort operation on '' @ join '', '' cols @ '' with ~'' @
                             ns estimatedRows @ '' rows. An index could eliminate the sort.'',
                           impact = (if estimatedRows > 50000 then high else medium),
                           createStatement = sort_template schema cols\<rparr>]
                       else suggestions))
         else suggestions)"

function analyzePlanNode ::
  "(rat \<Rightarrow> string) \<Rightarrow> plan \<Rightarrow> string \<Rightarrow> IndexSuggestion list \<Rightarrow> IndexSuggestion list" where
  \<comment> \<open>the array \<open>suggestions\<close> the code pushes to is passed in and returned\<close>
  "analyzePlanNode ns node schema suggestions =
     (let s = sort_rule ns node schema (seq_scan_rule ns node schema suggestions)
      in case Plans node of
           None \<Rightarrow> s
         | Some children \<Rightarrow>
             foldl (\<lambda>acc child. analyzePlanNode ns child schema acc) s children)"
  by pat_completeness auto
termination
proof -
  have elem: "c \<in> set cs \<Longrightarrow> size (c::plan) \<le> size_list size cs" for c cs
    by (induction cs) auto
  have below: "Plans q = Some cs \<Longrightarrow> c \<in> set cs \<Longrightarrow> size c < size q" for q cs c
    using elem [of c cs] by (cases q) simp
  show ?thesis
    by (relation "measure (\<lambda>(ns, node, schema, suggestions). size node)")
       (simp_all add: below)
qed

declare analyzePlanNode.simps [simp del]

definition suggestIndexes :: "(rat \<Rightarrow> string) \<Rightarrow> plan \<Rightarrow> string \<Rightarrow> IndexSuggestion list" where
  \<comment> \<open>\<open>plan\<close> is the first element of the plan the EXPLAIN query returned\<close>
  "suggestIndexes ns plan schema = analyzePlanNode ns (innerPlan plan) schema []"

subsection \<open>The connection manager (database.ts)\<close>

record ConnectionConfig =
  host :: string
  port :: nat
  database :: string
  user :: string
  password :: string
  ssl :: "bool option"

record PoolConfig =
  pc_host :: string
  pc_port :: nat
  pc_database :: string
  pc_user :: string
  pc_password :: string
  pc_reject_unauthorized :: "bool option"
  pc_max :: nat
  pc_idleTimeoutMillis :: nat
  pc_connectionTimeoutMillis :: nat


record DatabaseManager =
  pool :: "PoolConfig option"
  config :: "ConnectionConfig option"

definition cfg0 :: ConnectionConfig where
  \<comment> \<open>a configuration for the examples\<close>
  "cfg0 = \<lparr>host = ''localhost'', port = 5432, database = ''app'', user = ''reader'',
           password = ''secret'', ssl = None\<rparr>"

definition initial_manager :: DatabaseManager where
  "initial_manager = \<lparr>pool = None, config = None\<rparr>"

definition poolConfig_of :: "ConnectionConfig \<Rightarrow> PoolConfig" where
  "poolConfig_of c =
     \<lparr>pc_host = host c, pc_port = port c, pc_database = database c, pc_user = user c,
      pc_password = password c,
      pc_reject_unauthorized = (if ssl c = Some True then Some False else None),
      pc_max = 5, pc_idleTimeoutMillis = 30000, pc_connectionTimeoutMillis = 10000\<rparr>"

text \<open>
  The driver's answers are arguments: \<open>end_err\<close> is the error of \<^verbatim>\<open>pool.end()\<close> if it
  rejects, \<open>conn_err\<close> the error of the test \<^verbatim>\<open>pool.connect()\<close>.
\<close>

definition disconnect :: "error option \<Rightarrow> DatabaseManager \<Rightarrow> (error + unit) \<times> DatabaseManager" where
  "disconnect end_err m =
     (case pool m of
        None \<Rightarrow> (Inr (), m)
      | Some p \<Rightarrow>
          (case end_err of
             Some e \<Rightarrow> (Inl e, m)
           | None \<Rightarrow> (Inr (), m\<lparr>pool := None, config := None\<rparr>)))"

definition connect ::
  "error option \<Rightarrow> error option \<Rightarrow> ConnectionConfig \<Rightarrow> DatabaseManager
     \<Rightarrow> (error + unit) \<times> DatabaseManager" where
  "connect end_err conn_err cfg m =
     (case (if pool m \<noteq> None then disconnect end_err m else (Inr (), m)) of
        (Inl e, m1) \<Rightarrow> (Inl e, m1)
      | (Inr u, m1) \<Rightarrow>
          (let m2 = m1\<lparr>pool := Some (poolConfig_of cfg), config := Some cfg\<rparr>
           in case conn_err of Some e \<Rightarrow> (Inl e, m2) | None \<Rightarrow> (Inr (), m2)))"

definition isConnected :: "DatabaseManager \<Rightarrow> bool" where
  "isConnected m = (pool m \<noteq> None)"

definition getConnectionInfo :: "DatabaseManager \<Rightarrow> ConnectionConfig option" where
  "getConnectionInfo m = config m"

definition ensureConnected :: "DatabaseManager \<Rightarrow> error + unit" where
  "ensureConnected m =
     (if pool m = None
      then Inl (Error ''Not connected to any database. Use the 'connect' tool first.'')
      else Inr ())"

text \<open>
  A pooled client. The log lists what \<^verbatim>\<open>queryReadOnly\<close> asked of it, in order, and
  \<open>released\<close> counts the calls of \<^verbatim>\<open>release()\<close>. Of the server the model keeps one bit: a
  successful \<^verbatim>\<open>BEGIN\<close> opens a transaction, a successful \<^verbatim>\<open>COMMIT\<close> or \<^verbatim>\<open>ROLLBACK\<close> closes
  it, and a command that fails leaves it as it was.
\<close>

datatype command = Begin | Statement string | Commit | Rollback | Release

record client =
  log :: "command list"
  tx_open :: bool
  released :: nat

definition fresh_client :: client where
  "fresh_client = \<lparr>log = [], tx_open = False, released = 0\<rparr>"

definition client_query :: "command \<Rightarrow> (error + 'r) \<Rightarrow> client \<Rightarrow> (error + 'r) \<times> client" where
  "client_query cmd answer c =
     (answer,
      c\<lparr>log := log c @ [cmd],
        tx_open := (case answer of
                      Inl e \<Rightarrow> tx_open c
                    | Inr r \<Rightarrow> (if cmd = Begin then True
                               else if cmd = Commit \<or> cmd = Rollback then False
                               else tx_open c))\<rparr>)"

definition client_release :: "client \<Rightarrow> client" where
  "client_release c = c\<lparr>log := log c @ [Release], released := released c + 1\<rparr>"

text \<open>The answers of the server to one call of \<^verbatim>\<open>queryReadOnly\<close>.\<close>

record 'r answers =
  on_acquire :: "error option"
  on_begin :: "error option"
  on_statement :: "error + 'r"
  on_commit :: "error option"
  on_rollback :: "error option"

definition unit_answer :: "error option \<Rightarrow> error + unit" where
  "unit_answer a = (case a of Some e \<Rightarrow> Inl e | None \<Rightarrow> Inr ())"

definition try_body :: "string \<Rightarrow> 'r answers \<Rightarrow> client \<Rightarrow> (error + 'r) \<times> client" where
  \<comment> \<open>the \<^verbatim>\<open>try\<close> block: BEGIN, the statement, COMMIT; the first failure leaves the block\<close>
  "try_body sql a c =
     (case client_query Begin (unit_answer (on_begin a)) c of
        (Inl e, c1) \<Rightarrow> (Inl e, c1)
      | (Inr u, c1) \<Rightarrow>
          (case client_query (Statement sql) (on_statement a) c1 of
             (Inl e, c2) \<Rightarrow> (Inl e, c2)
           | (Inr result, c2) \<Rightarrow>
               (case client_query Commit (unit_answer (on_commit a)) c2 of
                  (Inl e, c3) \<Rightarrow> (Inl e, c3)
                | (Inr u, c3) \<Rightarrow> (Inr result, c3))))"

definition queryReadOnly ::
  "DatabaseManager \<Rightarrow> string \<Rightarrow> 'r answers \<Rightarrow> (error + 'r) \<times> client option" where
  \<comment> \<open>the client is \<open>None\<close> when none was obtained from the pool\<close>
  "queryReadOnly m sql a =
     (case ensureConnected m of
        Inl e \<Rightarrow> (Inl e, None)
      | Inr u \<Rightarrow>
          (case on_acquire a of
             Some e \<Rightarrow> (Inl e, None)
           | None \<Rightarrow>
               (case try_body sql a fresh_client of
                  (Inr result, c) \<Rightarrow> (Inr result, Some (client_release c))
                | (Inl e, c) \<Rightarrow>
                    (case client_query Rollback (unit_answer (on_rollback a)) c of
                       (Inl e', c') \<Rightarrow> (Inl e', Some (client_release c'))
                     | (Inr u, c') \<Rightarrow> (Inl e, Some (client_release c'))))))"

definition query :: "DatabaseManager \<Rightarrow> string \<Rightarrow> (error + 'r) \<Rightarrow> error + 'r" where
  "query m sql answer = (case ensureConnected m of Inl e \<Rightarrow> Inl e | Inr u \<Rightarrow> answer)"

text \<open>One call of a public operation, with the server's answers, and the manager after it.\<close>

datatype 'r operation =
    Connect "error option" "error option" ConnectionConfig
  | Disconnect "error option"
  | QueryReadOnly string "'r answers"
  | Query string "error + 'r"

fun after :: "DatabaseManager \<Rightarrow> 'r operation \<Rightarrow> DatabaseManager" where
  "after m (Connect end_err conn_err cfg) = snd (connect end_err conn_err cfg m)"
| "after m (Disconnect end_err) = snd (disconnect end_err m)"
| "after m (QueryReadOnly sql a) = m"
| "after m (Query sql answer) = m"

definition run :: "'r operation list \<Rightarrow> DatabaseManager" where
  "run ops = foldl after initial_manager ops"

definition both_or_neither :: "DatabaseManager \<Rightarrow> bool" where
  "both_or_neither m = ((pool m = None) = (config m = None))"

definition first_failure :: "'r answers \<Rightarrow> error option" where
  \<comment> \<open>the error that leaves the \<^verbatim>\<open>try\<close> block, if one of its three commands fails\<close>
  "first_failure a =
     (case on_begin a of
        Some e \<Rightarrow> Some e
      | None \<Rightarrow> (case on_statement a of Inl e \<Rightarrow> Some e | Inr r \<Rightarrow> on_commit a))"

subsection \<open>The health report (optimization.ts)\<close>

text \<open>
  Of \<^verbatim>\<open>getDatabaseHealth\<close> the model keeps the rendering of the cache ratio. The argument is
  the \<^verbatim>\<open>cache_hit_ratio\<close> column of the rows of the third query, \<open>None\<close> for SQL NULL. The
  query casts a rounded numeric to text, so a value that is present is not the empty string.
\<close>

definition cache_hit_ratio :: "string option list \<Rightarrow> string" where
  "cache_hit_ratio rows =
     (case rows of
        [] \<Rightarrow> ''N/A''
      | cell # rest \<Rightarrow>
          (case cell of
             None \<Rightarrow> ''N/A''
           | Some v \<Rightarrow> (if v \<noteq> [] then v @ ''%'' else ''N/A'')))"

subsection \<open>Numbers as text, and plans for the examples\<close>

definition digit_char :: "nat \<Rightarrow> char" where
  "digit_char d = ''0123456789'' ! d"

function digits :: "nat \<Rightarrow> string" where
  "digits n = (if n < 10 then [digit_char n] else digits (n div 10) @ [digit_char (n mod 10)])"
  by pat_completeness auto
termination
  by (relation "measure id") auto

declare digits.simps [simp del]

definition show_integral :: "rat \<Rightarrow> string" where
  \<comment> \<open>what a template literal prints for a number that is an integer of magnitude below
      \<open>10\<^sup>2\<^sup>1\<close>: its decimal digits. The examples pass it for \<open>ns\<close>.\<close>
  "show_integral q =
     (let i = \<lfloor>q\<rfloor> in if i < 0 then CHR ''-'' # digits (nat (- i)) else digits (nat i))"

definition scan_node :: "string \<Rightarrow> string option \<Rightarrow> rat \<Rightarrow> plan list option \<Rightarrow> plan" where
  \<comment> \<open>a Seq Scan node: relation, filter, estimated rows, children\<close>
  "scan_node rel f rows children =
     PlanObject None (Some ''Seq Scan'') (Some rel) f None (Some rows) None children"

definition sort_node :: "string list \<Rightarrow> rat \<Rightarrow> rat \<Rightarrow> plan list option \<Rightarrow> plan" where
  \<comment> \<open>a Sort node: sort keys, estimated rows, total cost, children\<close>
  "sort_node keys rows cost children =
     PlanObject None (Some ''Sort'') None None (Some keys) (Some rows) (Some cost) children"

definition envelope :: "plan \<Rightarrow> plan" where
  \<comment> \<open>\<^verbatim>\<open>{Plan: p}\<close>\<close>
  "envelope p = PlanObject (Some p) None None None None None None None"

definition limit_over_wrapped_scan :: plan where
  \<comment> \<open>a Limit node whose one child is a scan inside an envelope\<close>
  "limit_over_wrapped_scan =
     PlanObject None (Some ''Limit'') None None None (Some 10) None
       (Some [envelope (scan_node ''orders'' (Some ''(user_id = 5)'') 20000 None)])"

subsection \<open>The traversals and the rule table, as the specification words them\<close>

function preorder :: "plan \<Rightarrow> plan list" where
  \<comment> \<open>depth first, a node before its children, with the envelope taken off at every node\<close>
  "preorder p =
     (let inner = innerPlan p
      in inner # (case Plans inner of
                    None \<Rightarrow> []
                  | Some children \<Rightarrow> concat (map preorder children)))"
  by pat_completeness auto
termination
proof -
  have elem: "c \<in> set cs \<Longrightarrow> size (c::plan) \<le> size_list size cs" for c cs
    by (induction cs) auto
  have below: "Plans q = Some cs \<Longrightarrow> c \<in> set cs \<Longrightarrow> size c < size q" for q cs c
    using elem [of c cs] by (cases q) simp
  have inner: "size (innerPlan p) \<le> size p" for p
    by (cases p) (simp add: innerPlan_def split: option.splits)
  have step: "Plans (innerPlan p) = Some cs \<Longrightarrow> c \<in> set cs \<Longrightarrow> size c < size p" for p cs c
    using below [of "innerPlan p" cs c] inner [of p] by simp
  show ?thesis
    by (relation "measure size") (simp_all add: step)
qed

declare preorder.simps [simp del]

definition warning_rules :: "(rat \<Rightarrow> string) \<Rightarrow> plan \<Rightarrow> string list" where
  \<comment> \<open>the rule table of the warning analyser: node type, trigger, message\<close>
  "warning_rules ns n =
     (if Node_Type n = Some ''Seq Scan''
      then (if or_zero (Plan_Rows n) > 10000 then [seq_scan_warning ns n] else [])
      else if Node_Type n = Some ''Nested Loop''
      then (if or_zero (Plan_Rows n) > 50000 then [nested_loop_warning ns n] else [])
      else if Node_Type n = Some ''Sort'' \<or> Node_Type n = Some ''Hash''
      then (if or_zero (Total_Cost n) > 10000 then [high_cost_warning ns n] else [])
      else [])"

function visited :: "plan \<Rightarrow> plan list" where
  \<comment> \<open>depth first, a node before its children, every node as it stands\<close>
  "visited n =
     n # (case Plans n of None \<Rightarrow> [] | Some children \<Rightarrow> concat (map visited children))"
  by pat_completeness auto
termination
proof -
  have elem: "c \<in> set cs \<Longrightarrow> size (c::plan) \<le> size_list size cs" for c cs
    by (induction cs) auto
  have below: "Plans q = Some cs \<Longrightarrow> c \<in> set cs \<Longrightarrow> size c < size q" for q cs c
    using elem [of c cs] by (cases q) simp
  show ?thesis
    by (relation "measure size") (simp_all add: below)
qed

declare visited.simps [simp del]

definition children_of :: "plan \<Rightarrow> plan list" where
  "children_of n = (case Plans n of None \<Rightarrow> [] | Some children \<Rightarrow> children)"

definition node_suggestions :: "(rat \<Rightarrow> string) \<Rightarrow> string \<Rightarrow> plan \<Rightarrow> IndexSuggestion list" where
  \<comment> \<open>what the two rules give for one node\<close>
  "node_suggestions ns schema n = sort_rule ns n schema (seq_scan_rule ns n schema [])"

function captures :: "string \<Rightarrow> string list" where
  \<comment> \<open>the identifiers the pattern matches in a filter, from left to right\<close>
  "captures [] = []"
| "captures (c # cs) =
     (case exec_from (c # cs) of None \<Rightarrow> [] | Some (col, rest) \<Rightarrow> col # captures rest)"
  by pat_completeness auto
termination
proof -
  have here: "column_here s = Some (col, rest) \<Longrightarrow> length rest < length s" for s col rest
    by (auto simp: column_here_def Let_def less_Suc_eq_le split: list.splits if_splits
             intro: order_trans [OF length_dropWhile_le]
                    order_trans [OF length_dropWhile_le order_trans [OF length_dropWhile_le]])
  have found: "exec_from s = Some (col, rest) \<Longrightarrow> length rest < length s" for s col rest
  proof (induction s)
    case Nil
    then show ?case by simp
  next
    case (Cons a s)
    then show ?case using here [of "a # s" col rest]
      by (auto split: option.splits)
  qed
  show ?thesis
    by (relation "measure length") (auto simp del: exec_from.simps dest: found)
qed

definition column_at :: "string \<Rightarrow> nat \<Rightarrow> string list" where
  \<comment> \<open>the identifier of the match of the pattern that starts at position \<open>i\<close> of the filter,
      if there is one\<close>
  "column_at f i = (case column_here (drop i f) of None \<Rightarrow> [] | Some (col, rest) \<Rightarrow> [col])"

definition pattern_columns :: "string \<Rightarrow> string list" where
  \<comment> \<open>the identifiers of the matches at all positions of the filter, from left to right\<close>
  "pattern_columns f = concat (map (column_at f) [0..<length f])"


fun first_seen :: "'a list \<Rightarrow> 'a list" where
  \<comment> \<open>duplicates removed, each element at the place of its first occurrence\<close>
  "first_seen [] = []"
| "first_seen (x # xs) = x # first_seen (removeAll x xs)"

definition is_direction_marker :: "string \<Rightarrow> bool" where
  \<comment> \<open>a space and ASC or DESC, in any case\<close>
  "is_direction_marker m = (list_all2 ci_eq m '' ASC'' \<or> list_all2 ci_eq m '' DESC'')"

definition marker_at :: "nat \<Rightarrow> string \<Rightarrow> bool" where
  \<comment> \<open>a direction marker starts at position \<open>j\<close> of the text\<close>
  "marker_at j t = (\<exists>m rest. drop j t = m @ rest \<and> is_direction_marker m)"

function spec_strip_table_prefix :: "string \<Rightarrow> string" where
  \<comment> \<open>"any qualifying table prefix": the identifiers, each followed by a dot, that a key
      starts with\<close>
  "spec_strip_table_prefix k =
     (let r = dropWhile is_word_char k
      in if takeWhile is_word_char k \<noteq> [] \<and> r \<noteq> [] \<and> hd r = CHR ''.''
         then spec_strip_table_prefix (tl r) else k)"
  by pat_completeness auto
termination
proof -
  have shorter: "takeWhile P k \<noteq> [] \<Longrightarrow> length (dropWhile P k) - Suc 0 < length k"
    for P and k :: string
    using length_dropWhile_le [of P k] by (cases k) (simp_all del: dropWhile.simps)
  show ?thesis
    by (relation "measure length") (auto dest: shorter)
qed

declare spec_strip_table_prefix.simps [simp del]

definition spec_strip_trailing_direction :: "string \<Rightarrow> string" where
  \<comment> \<open>"trailing ASC/DESC direction marker": a marker the key ends with\<close>
  "spec_strip_trailing_direction k =
     (if 4 \<le> length k \<and> direction_here (drop (length k - 4) k) = Some []
      then take (length k - 4) k
      else if 5 \<le> length k \<and> direction_here (drop (length k - 5) k) = Some []
      then take (length k - 5) k
      else k)"

definition spec_sort_column :: "string \<Rightarrow> string" where
  "spec_sort_column k = spec_strip_trailing_direction (spec_strip_table_prefix k)"

definition contains_keyword :: "string \<Rightarrow> string \<Rightarrow> bool" where
  \<comment> \<open>the keyword occurs in the text as a whole word, in any case\<close>
  "contains_keyword kw t =
     (\<exists>pre w post. t = pre @ w @ post \<and> list_all2 ci_eq w kw \<and>
        (pre = [] \<or> \<not> is_word_char (last pre)) \<and> (post = [] \<or> \<not> is_word_char (hd post)))"

definition begins_with_select :: "string \<Rightarrow> bool" where
  \<comment> \<open>the text begins with SELECT, in any case\<close>
  "begins_with_select t = (\<exists>w rest. t = w @ rest \<and> list_all2 ci_eq w ''SELECT'')"

definition no_outer_space :: "string \<Rightarrow> bool" where
  \<comment> \<open>no white space at either end\<close>
  "no_outer_space t = (t = [] \<or> (\<not> is_space (hd t) \<and> \<not> is_space (last t)))"

definition spec_trimmed :: "string \<Rightarrow> string" where
  \<comment> \<open>"trims trailing whitespace and a trailing semicolon", and nothing else\<close>
  "spec_trimmed sql = strip_semicolon (rev (dropWhile is_space (rev sql)))"

definition matches :: "string \<times> string list \<Rightarrow> string \<Rightarrow> bool" where
  \<comment> \<open>one of the keywords of a pattern occurs in the text as a whole word\<close>
  "matches p t = (\<exists>kw\<in>set (snd p). contains_keyword kw t)"

definition has_infix :: "string \<Rightarrow> string \<Rightarrow> bool" where
  "has_infix x t = (\<exists>a b. t = a @ x @ b)"

datatype lex_mode = InCode | InLineComment | InBlockComment

fun spec_outside :: "lex_mode \<Rightarrow> string \<Rightarrow> string \<Rightarrow> string list" where
  \<comment> \<open>the pieces of a statement that lie outside its comments, read from left to right:
      two dashes open a comment that ends before the next line terminator, \<^verbatim>\<open>/*\<close> opens one
      that ends with \<^verbatim>\<open>*/\<close>; \<open>cur\<close> is the piece being read\<close>
  "spec_outside InCode cur [] = [cur]"
| "spec_outside InCode cur [c] = [cur @ [c]]"
| "spec_outside InCode cur (c # d # cs) =
     (if c = CHR ''-'' \<and> d = CHR ''-'' then cur # spec_outside InLineComment [] cs
      else if c = CHR ''/'' \<and> d = CHR ''*'' then cur # spec_outside InBlockComment [] cs
      else spec_outside InCode (cur @ [c]) (d # cs))"
| "spec_outside InLineComment cur [] = []"
| "spec_outside InLineComment cur (c # cs) =
     (if is_line_terminator c then spec_outside InCode [c] cs
      else spec_outside InLineComment cur cs)"
| "spec_outside InBlockComment cur [] = []"
| "spec_outside InBlockComment cur [c] = []"
| "spec_outside InBlockComment cur (c # d # cs) =
     (if c = CHR ''*'' \<and> d = CHR ''/'' then spec_outside InCode [] cs
      else spec_outside InBlockComment cur (d # cs))"

definition spec_keyword_outside_comments :: "string \<Rightarrow> bool" where
  \<comment> \<open>a forbidden keyword stands as a whole word outside the comments of the statement; the
      characters next to a piece are those that open or close a comment, none a word
      character, so a whole word of a piece is one of the statement\<close>
  "spec_keyword_outside_comments sql =
     (\<exists>piece\<in>set (spec_outside InCode [] sql). \<exists>p\<in>set forbidden. matches p piece)"

section \<open>Properties\<close>

subsection \<open>Patterns\<close>

lemma ci_prefix_iff:
  "ci_prefix p s = Some rest \<longleftrightarrow> (\<exists>m. s = m @ rest \<and> list_all2 ci_eq m p)"
proof (induction p arbitrary: s)
  case Nil
  show ?case by auto
next
  case (Cons a p)
  show ?case
  proof (cases s)
    case Nil
    then show ?thesis by simp
  next
    case (Cons c cs)
    show ?thesis
    proof
      assume h: "ci_prefix (a # p) s = Some rest"
      then have eq: "ci_eq c a" and tl: "ci_prefix p cs = Some rest"
        using Cons by (simp_all split: if_splits)
      from tl obtain m where "cs = m @ rest" and "list_all2 ci_eq m p"
        using Cons.IH [of cs] by blast
      then have "s = (c # m) @ rest \<and> list_all2 ci_eq (c # m) (a # p)"
        using Cons eq by simp
      then show "\<exists>m. s = m @ rest \<and> list_all2 ci_eq m (a # p)" by blast
    next
      assume "\<exists>m. s = m @ rest \<and> list_all2 ci_eq m (a # p)"
      then obtain m where m: "s = m @ rest" and all: "list_all2 ci_eq m (a # p)" by blast
      from all obtain x xs where mx: "m = x # xs" and eq: "ci_eq x a"
        and rest: "list_all2 ci_eq xs p"
        by (auto simp: list_all2_Cons2)
      from m mx Cons have "x = c" and "cs = xs @ rest" by simp_all
      then have "ci_prefix p cs = Some rest" using Cons.IH [of cs] rest by blast
      then show "ci_prefix (a # p) s = Some rest" using Cons eq \<open>x = c\<close> by simp
    qed
  qed
qed

lemma ci_eq_word: "ci_eq c p \<Longrightarrow> is_word_char c = is_word_char p"
  unfolding ci_eq_def upper_code_def is_word_char_def Let_def
  by (auto split: if_splits)

lemma ci_word: "list_all2 ci_eq w k \<Longrightarrow> list_all is_word_char k \<Longrightarrow> list_all is_word_char w"
  by (induction w k rule: list_all2_induct) (auto dest: ci_eq_word)

lemma keyword_here_iff:
  assumes "\<And>k. k \<in> set alts \<Longrightarrow> k \<noteq> [] \<and> list_all is_word_char k"
  shows "keyword_here alts prev s \<longleftrightarrow>
     \<not> word_at prev \<and>
     (\<exists>k\<in>set alts. \<exists>w post. s = w @ post \<and> list_all2 ci_eq w k \<and>
        (post = [] \<or> \<not> is_word_char (hd post)))"
proof -
  have one: "(case ci_prefix k s of None \<Rightarrow> False
              | Some rest \<Rightarrow> boundary (if k = [] then prev else Some (last (take (length k) s)))
                              (head_opt rest)) \<longleftrightarrow>
             (\<exists>w post. s = w @ post \<and> list_all2 ci_eq w k \<and>
                (post = [] \<or> \<not> is_word_char (hd post)))"
    (is "?L \<longleftrightarrow> ?R") if k: "k \<in> set alts" for k
  proof
    assume ?L
    then obtain rest where r: "ci_prefix k s = Some rest"
      and b: "boundary (Some (last (take (length k) s))) (head_opt rest)"
      using assms [OF k] by (auto split: option.splits)
    from r obtain w where w: "s = w @ rest" "list_all2 ci_eq w k"
      using ci_prefix_iff by blast
    have len: "length w = length k" using w(2) by (rule list_all2_lengthD)
    have ne: "w \<noteq> []" using len assms [OF k] by auto
    have "list_all is_word_char w" using ci_word [OF w(2)] assms [OF k] by simp
    then have "is_word_char (last w)" using ne by (simp add: list_all_iff)
    moreover have "take (length k) s = w" using w(1) len by simp
    ultimately have "\<not> word_at (head_opt rest)"
      using b by (simp add: boundary_def word_at_def)
    then have "rest = [] \<or> \<not> is_word_char (hd rest)"
      by (cases rest) (simp_all add: word_at_def head_opt_def)
    then show ?R using w by blast
  next
    assume ?R
    then obtain w post where w: "s = w @ post" "list_all2 ci_eq w k"
      and p: "post = [] \<or> \<not> is_word_char (hd post)"
      by blast
    have r: "ci_prefix k s = Some post" using w ci_prefix_iff by blast
    have len: "length w = length k" using w(2) by (rule list_all2_lengthD)
    have ne: "w \<noteq> []" using len assms [OF k] by auto
    have "list_all is_word_char w" using ci_word [OF w(2)] assms [OF k] by simp
    then have lw: "is_word_char (last w)" using ne by (simp add: list_all_iff)
    have tk: "take (length k) s = w" using w(1) len by simp
    have "\<not> word_at (head_opt post)"
      using p by (cases post) (simp_all add: word_at_def head_opt_def)
    then show ?L using r lw tk assms [OF k]
      by (simp add: boundary_def word_at_def)
  qed
  have first: "boundary prev (head_opt s) \<longleftrightarrow> \<not> word_at prev"
    if sw: "s = w @ post" and wk: "list_all2 ci_eq w k" and ka: "k \<in> set alts" for w post k
  proof -
    have len: "length w = length k" using wk by (rule list_all2_lengthD)
    then obtain c cs where c: "w = c # cs" using assms [OF ka] by (cases w) auto
    have "list_all is_word_char w" using ci_word [OF wk] assms [OF ka] by simp
    then have "is_word_char c" using c by simp
    then show ?thesis using sw c by (simp add: boundary_def word_at_def head_opt_def)
  qed
  show ?thesis
    unfolding keyword_here_def list_ex_iff
    using one first by (metis (no_types, lifting))
qed


lemma test_from_iff:
  assumes "\<And>k. k \<in> set alts \<Longrightarrow> k \<noteq> [] \<and> list_all is_word_char k"
  shows "test_from alts prev s \<longleftrightarrow>
     (\<exists>pre w post k. k \<in> set alts \<and> s = pre @ w @ post \<and> list_all2 ci_eq w k \<and>
        (if pre = [] then \<not> word_at prev else \<not> is_word_char (last pre)) \<and>
        (post = [] \<or> \<not> is_word_char (hd post)))"
proof (induction s arbitrary: prev)
  case Nil
  have "\<not> list_all2 ci_eq [] k" if "k \<in> set alts" for k
    using assms [OF that] by auto
  then show ?case
    by (auto simp: keyword_here_iff [OF assms])
next
  case (Cons c cs)
  show ?case
  proof
    assume "test_from alts prev (c # cs)"
    then consider "keyword_here alts prev (c # cs)" | "test_from alts (Some c) cs" by auto
    then show "\<exists>pre w post k. k \<in> set alts \<and> c # cs = pre @ w @ post \<and> list_all2 ci_eq w k \<and>
        (if pre = [] then \<not> word_at prev else \<not> is_word_char (last pre)) \<and>
        (post = [] \<or> \<not> is_word_char (hd post))"
    proof cases
      case 1
      then obtain k w post where "k \<in> set alts" "c # cs = w @ post" "list_all2 ci_eq w k"
        "post = [] \<or> \<not> is_word_char (hd post)" "\<not> word_at prev"
        using keyword_here_iff [of alts prev "c # cs", OF assms] by blast
      then have "k \<in> set alts \<and> c # cs = [] @ w @ post \<and> list_all2 ci_eq w k \<and>
        (if [] = ([]::string) then \<not> word_at prev else \<not> is_word_char (last [])) \<and>
        (post = [] \<or> \<not> is_word_char (hd post))" by simp
      then show ?thesis by blast
    next
      case 2
      then obtain pre w post k where k: "k \<in> set alts" "cs = pre @ w @ post"
        "list_all2 ci_eq w k" "post = [] \<or> \<not> is_word_char (hd post)"
        and b: "if pre = [] then \<not> word_at (Some c) else \<not> is_word_char (last pre)"
        using Cons.IH [of "Some c"] by blast
      have "\<not> is_word_char (last (c # pre))"
        using b by (cases pre) (simp_all add: word_at_def)
      then have "k \<in> set alts \<and> c # cs = (c # pre) @ w @ post \<and> list_all2 ci_eq w k \<and>
        (if c # pre = [] then \<not> word_at prev else \<not> is_word_char (last (c # pre))) \<and>
        (post = [] \<or> \<not> is_word_char (hd post))" using k by simp
      then show ?thesis by blast
    qed
  next
    assume "\<exists>pre w post k. k \<in> set alts \<and> c # cs = pre @ w @ post \<and> list_all2 ci_eq w k \<and>
        (if pre = [] then \<not> word_at prev else \<not> is_word_char (last pre)) \<and>
        (post = [] \<or> \<not> is_word_char (hd post))"
    then obtain pre w post k where k: "k \<in> set alts" and s: "c # cs = pre @ w @ post"
      and wk: "list_all2 ci_eq w k"
      and b: "if pre = [] then \<not> word_at prev else \<not> is_word_char (last pre)"
      and a: "post = [] \<or> \<not> is_word_char (hd post)"
      by blast
    show "test_from alts prev (c # cs)"
    proof (cases pre)
      case Nil
      then have "keyword_here alts prev (c # cs)"
        using keyword_here_iff [of alts prev "c # cs", OF assms] k s wk b a by auto
      then show ?thesis by simp
    next
      case (Cons x pre')
      then have cs: "x = c" "cs = pre' @ w @ post" using s by simp_all
      have "if pre' = [] then \<not> word_at (Some c) else \<not> is_word_char (last pre')"
        using b Cons cs(1) by (cases pre') (simp_all add: word_at_def)
      then have "test_from alts (Some c) cs"
        using Cons.IH [of "Some c"] k cs wk a by blast
      then show ?thesis by simp
    qed
  qed
qed

lemma keyword_test_iff:
  assumes "\<And>k. k \<in> set alts \<Longrightarrow> k \<noteq> [] \<and> list_all is_word_char k"
  shows "keyword_test alts s \<longleftrightarrow> (\<exists>k\<in>set alts. contains_keyword k s)"
proof -
  have "(if pre = [] then \<not> word_at None else \<not> is_word_char (last pre)) \<longleftrightarrow>
        (pre = [] \<or> \<not> is_word_char (last pre))" for pre :: string
    by (simp add: word_at_def)
  then show ?thesis
    unfolding keyword_test_def contains_keyword_def
    using test_from_iff [of alts None s, OF assms] by auto
qed

lemma limit_test_iff: "keyword_test [''LIMIT''] s \<longleftrightarrow> contains_keyword ''LIMIT'' s"
  by (subst keyword_test_iff) (simp_all add: is_word_char_def)


subsection \<open>Read-only validation\<close>

lemma pattern_test_iff:
  "keyword_test (snd pattern1) t = matches pattern1 t"
  "keyword_test (snd pattern2) t = matches pattern2 t"
  "keyword_test (snd pattern3) t = matches pattern3 t"
  unfolding matches_def
  by (subst keyword_test_iff; simp add: pattern1_def pattern2_def pattern3_def; auto simp: is_word_char_def)+

lemma first_match_forbidden:
  "first_match forbidden t =
     (if matches pattern1 t then Some (fst pattern1)
      else if matches pattern2 t then Some (fst pattern2)
      else if matches pattern3 t then Some (fst pattern3) else None)"
proof -
  have "first_match (p # ps) t = (if keyword_test (snd p) t then Some (fst p) else first_match ps t)"
    for p ps
    by (cases p) simp
  then show ?thesis
    by (simp add: forbidden_def pattern_test_iff)
qed

lemma no_dashes_unchanged: "\<not> has_infix ''--'' s \<Longrightarrow> strip_line_comments s = s"
proof (induction s rule: strip_line_comments.induct)
  case 1
  then show ?case by simp
next
  case (2 c)
  then show ?case by simp
next
  case (3 c d cs)
  have here: "\<not> (c = CHR ''-'' \<and> d = CHR ''-'')"
  proof
    assume "c = CHR ''-'' \<and> d = CHR ''-''"
    then have "c # d # cs = [] @ ''--'' @ cs" by simp
    then show False using "3.prems" unfolding has_infix_def by blast
  qed
  have "\<not> has_infix ''--'' (d # cs)"
  proof
    assume "has_infix ''--'' (d # cs)"
    then obtain a b where "d # cs = a @ ''--'' @ b" unfolding has_infix_def by blast
    then have "c # d # cs = (c # a) @ ''--'' @ b" by simp
    then show False using "3.prems" unfolding has_infix_def by blast
  qed
  then show ?case using here "3.IH"(2) by auto
qed

lemma no_opener_unchanged: "\<not> has_infix ''/*'' s \<Longrightarrow> strip_block_comments s = s"
proof (induction s rule: strip_block_comments.induct)
  case 1
  then show ?case by simp
next
  case (2 c)
  then show ?case by simp
next
  case (3 c d cs)
  have here: "\<not> (c = CHR ''/'' \<and> d = CHR ''*'')"
  proof
    assume "c = CHR ''/'' \<and> d = CHR ''*''"
    then have "c # d # cs = [] @ ''/*'' @ cs" by simp
    then show False using "3.prems" unfolding has_infix_def by blast
  qed
  have "\<not> has_infix ''/*'' (d # cs)"
  proof
    assume "has_infix ''/*'' (d # cs)"
    then obtain a b where "d # cs = a @ ''/*'' @ b" unfolding has_infix_def by blast
    then have "c # d # cs = (c # a) @ ''/*'' @ b" by simp
    then show False using "3.prems" unfolding has_infix_def by blast
  qed
  then show ?case using here "3.IH"(3) by auto
qed

text \<open>
  What validateReadOnly does: it fails exactly when the cleaned text contains one of the
  forbidden keywords as a whole word, in any case, and the error names the source of the
  first of the three patterns, in their order, that has such a keyword. A statement with no
  \<^verbatim>\<open>--\<close> and no \<^verbatim>\<open>/*\<close> is its own cleaned text.
\<close>

lemma validateReadOnly_fails_iff_keyword:
  "(validateReadOnly sql \<noteq> Inr ()) = (\<exists>p\<in>set forbidden. matches p (cleaned sql)) \<and>
   (matches pattern1 (cleaned sql) \<longrightarrow>
      validateReadOnly sql = Inl (Error (forbidden_message (fst pattern1)))) \<and>
   (\<not> matches pattern1 (cleaned sql) \<and> matches pattern2 (cleaned sql) \<longrightarrow>
      validateReadOnly sql = Inl (Error (forbidden_message (fst pattern2)))) \<and>
   (\<not> matches pattern1 (cleaned sql) \<and> \<not> matches pattern2 (cleaned sql) \<and>
    matches pattern3 (cleaned sql) \<longrightarrow>
      validateReadOnly sql = Inl (Error (forbidden_message (fst pattern3)))) \<and>
   (\<not> has_infix ''--'' sql \<and> \<not> has_infix ''/*'' sql \<longrightarrow> cleaned sql = sql)"
proof -
  have any: "(\<exists>p\<in>set forbidden. matches p t) =
      (matches pattern1 t \<or> matches pattern2 t \<or> matches pattern3 t)" for t
    by (simp add: forbidden_def)
  have plain: "\<not> has_infix ''--'' sql \<and> \<not> has_infix ''/*'' sql \<longrightarrow> cleaned sql = sql"
    by (simp add: cleaned_def no_dashes_unchanged no_opener_unchanged)
  show ?thesis
    using plain by (simp add: validateReadOnly_def first_match_forbidden any)
qed

lemma validateReadOnly_examples:
  "validateReadOnly ''SELECT 1; drop table t -- bye'' =
     Inl (Error (forbidden_message (fst pattern1))) \<and>
   validateReadOnly ''SELECT 1 /* DROP */ -- delete'' = Inr ()"
proof
  let ?bad = "''SELECT 1; drop table t -- bye''"
  have c: "cleaned ?bad = ''SELECT 1; drop table t ''"
    by (simp add: cleaned_def is_line_terminator_def)
  have "keyword_test (snd pattern1) (cleaned ?bad)"
    unfolding c
    by (simp add: pattern1_def keyword_test_def keyword_here_def boundary_def word_at_def
          head_opt_def is_word_char_def ci_eq_def upper_code_def)
  then have "matches pattern1 (cleaned ?bad)" by (simp add: pattern_test_iff)
  with validateReadOnly_fails_iff_keyword [of ?bad]
  show "validateReadOnly ?bad = Inl (Error (forbidden_message (fst pattern1)))"
    by blast
next
  let ?good = "''SELECT 1 /* DROP */ -- delete''"
  have c: "cleaned ?good = ''SELECT 1  ''"
    by (simp add: cleaned_def is_line_terminator_def)
  have "\<not> keyword_test (snd pattern1) (cleaned ?good)"
    and "\<not> keyword_test (snd pattern2) (cleaned ?good)"
    and "\<not> keyword_test (snd pattern3) (cleaned ?good)"
    unfolding c
    by (simp_all add: pattern1_def pattern2_def pattern3_def keyword_test_def keyword_here_def
          boundary_def word_at_def head_opt_def is_word_char_def ci_eq_def upper_code_def)
  then have "\<not> (\<exists>p\<in>set forbidden. matches p (cleaned ?good))"
    by (simp add: pattern_test_iff forbidden_def)
  with validateReadOnly_fails_iff_keyword [of ?good]
  show "validateReadOnly ?good = Inr ()"
    by blast
qed

text \<open>
  C1. Every statement with a forbidden keyword as a whole word outside its comments is to
  fail. The code does not do that: it deletes a comment and puts nothing in its place, so
  the words on the two sides of a comment become one. In \<^verbatim>\<open>SELECT 1;DROP/**/TABLE t\<close> the
  keyword DROP stands as a whole word outside the one comment, the cleaned text is
  \<^verbatim>\<open>SELECT 1;DROPTABLE t\<close>, and the statement passes; the same statement with a space for the
  comment fails.
\<close>

theorem validateReadOnly_passes_glued_keyword:
  "validateReadOnly ''SELECT 1;DROP/**/TABLE t'' = Inr () \<and>
   spec_keyword_outside_comments ''SELECT 1;DROP/**/TABLE t'' \<and>
   cleaned ''SELECT 1;DROP/**/TABLE t'' = ''SELECT 1;DROPTABLE t'' \<and>
   validateReadOnly ''SELECT 1;DROP TABLE t'' = Inl (Error (forbidden_message (fst pattern1)))"
proof (intro conjI)
  show "validateReadOnly ''SELECT 1;DROP/**/TABLE t'' = Inr ()"
    by (simp add: validateReadOnly_def cleaned_def forbidden_def pattern1_def pattern2_def
          pattern3_def keyword_test_def keyword_here_def boundary_def word_at_def head_opt_def
          is_word_char_def ci_eq_def upper_code_def)
  have "keyword_test (snd pattern1) ''SELECT 1;DROP''"
    by (simp add: pattern1_def keyword_test_def keyword_here_def boundary_def word_at_def
          head_opt_def is_word_char_def ci_eq_def upper_code_def)
  then have "matches pattern1 ''SELECT 1;DROP''" by (simp add: pattern_test_iff)
  moreover have "spec_outside InCode [] ''SELECT 1;DROP/**/TABLE t'' =
      [''SELECT 1;DROP'', ''TABLE t'']"
    by simp
  ultimately show "spec_keyword_outside_comments ''SELECT 1;DROP/**/TABLE t''"
    unfolding spec_keyword_outside_comments_def by (simp add: forbidden_def)
  show "cleaned ''SELECT 1;DROP/**/TABLE t'' = ''SELECT 1;DROPTABLE t''"
    by (simp add: cleaned_def)
  show "validateReadOnly ''SELECT 1;DROP TABLE t'' =
      Inl (Error (forbidden_message (fst pattern1)))"
    by (simp add: validateReadOnly_def cleaned_def forbidden_def pattern1_def
          keyword_test_def keyword_here_def boundary_def word_at_def head_opt_def
          is_word_char_def ci_eq_def upper_code_def)
qed

subsection \<open>The row limit\<close>

lemma trim_decomp:
  "\<exists>lead trail. sql = lead @ trim sql @ trail \<and> list_all is_space lead \<and>
     list_all is_space trail \<and> no_outer_space (trim sql)"
proof -
  let ?a = "dropWhile is_space sql"
  let ?lead = "takeWhile is_space sql"
  let ?trail = "rev (takeWhile is_space (rev ?a))"
  have a: "sql = ?lead @ ?a" by simp
  have "rev ?a = takeWhile is_space (rev ?a) @ dropWhile is_space (rev ?a)" by simp
  then have "rev (rev ?a) = rev (takeWhile is_space (rev ?a) @ dropWhile is_space (rev ?a))"
    by simp
  then have b: "?a = trim sql @ ?trail"
    unfolding trim_def rev_append rev_rev_ident .
  have l: "list_all is_space ?lead" by (auto simp: list_all_iff dest: set_takeWhileD)
  have t: "list_all is_space ?trail" by (auto simp: list_all_iff dest: set_takeWhileD)
  have last_ok: "trim sql = [] \<or> \<not> is_space (last (trim sql))"
    using hd_dropWhile [of is_space "rev ?a"] by (auto simp: trim_def last_rev)
  have hd_a: "?a = [] \<or> \<not> is_space (hd ?a)"
    using hd_dropWhile [of is_space sql] by auto
  have "trim sql = [] \<or> \<not> is_space (hd (trim sql))"
  proof (cases "trim sql")
    case Nil
    then show ?thesis by simp
  next
    case (Cons x xs)
    have ax: "?a = (x # xs) @ ?trail" using b unfolding Cons .
    have "hd ?a = x" by (metis ax append_Cons list.sel(1))
    moreover have "?a \<noteq> []" by (metis ax Nil_is_append_conv list.distinct(1))
    ultimately have "\<not> is_space x" using hd_a by blast
    then show ?thesis unfolding Cons by simp
  qed
  then have "no_outer_space (trim sql)" using last_ok by (auto simp: no_outer_space_def)
  then show ?thesis using a b l t by (metis append_assoc)
qed

lemma trim_id: "no_outer_space t \<Longrightarrow> trim t = t"
proof (cases t)
  case Nil
  then show ?thesis by (simp add: trim_def)
next
  case (Cons x xs)
  assume "no_outer_space t"
  then have h: "\<not> is_space (hd t)" and l: "\<not> is_space (last t)" and ne: "t \<noteq> []"
    using Cons by (auto simp: no_outer_space_def)
  have 1: "dropWhile is_space t = t" using h Cons by simp
  obtain a r where ar: "rev t = a # r" using ne by (cases "rev t") simp_all
  have "hd (rev t) = last t" using ne by (simp add: hd_rev)
  then have "a = last t" unfolding ar by simp
  then have "dropWhile is_space (a # r) = a # r" using l by simp
  then have 2: "dropWhile is_space (rev t) = rev t" unfolding ar .
  show ?thesis unfolding trim_def 1 2 by simp
qed

lemma trimmed_no_leading_space: "trimmed sql = [] \<or> \<not> is_space (hd (trimmed sql))"
proof -
  obtain t where t: "t = trim sql" by simp
  have ok: "no_outer_space t" using trim_decomp [of sql] t by blast
  show ?thesis
  proof (cases "t \<noteq> [] \<and> last t = CHR '';''")
    case False
    then show ?thesis using ok t by (auto simp: trimmed_def strip_semicolon_def no_outer_space_def)
  next
    case True
    then have "trimmed sql = butlast t" using t by (simp add: trimmed_def strip_semicolon_def)
    moreover have "butlast t = [] \<or> hd (butlast t) = hd t"
      by (cases t) (auto split: if_splits)
    ultimately show ?thesis using ok True by (auto simp: no_outer_space_def)
  qed
qed

lemma isSelect_iff:
  assumes "t = [] \<or> \<not> is_space (hd t)"
  shows "isSelect t \<longleftrightarrow> begins_with_select t"
proof -
  have "dropWhile is_space t = t" using assms by (cases t) auto
  then show ?thesis
    unfolding isSelect_def begins_with_select_def
    using ci_prefix_iff [of "''SELECT''" t] by auto
qed

lemma ensureLimit_cases:
  "(begins_with_select (trimmed sql) \<and> \<not> contains_keyword ''LIMIT'' (trimmed sql) \<longrightarrow>
      ensureLimit ns sql n = trimmed sql @ '' LIMIT '' @ ns n) \<and>
   (contains_keyword ''LIMIT'' (trimmed sql) \<longrightarrow> ensureLimit ns sql n = trimmed sql) \<and>
   (\<not> begins_with_select (trimmed sql) \<longrightarrow> ensureLimit ns sql n = trimmed sql)"
  using isSelect_iff [OF trimmed_no_leading_space, of sql]
  by (simp add: ensureLimit_def Let_def limit_test_iff)

lemma strip_semicolon_id: "t = [] \<or> last t \<noteq> CHR '';'' \<Longrightarrow> strip_semicolon t = t"
  by (auto simp: strip_semicolon_def)

lemma ensureLimit_again:
  assumes "ensureLimit ns sql n = [] \<or>
           (\<not> is_space (last (ensureLimit ns sql n)) \<and> last (ensureLimit ns sql n) \<noteq> CHR '';'')"
  shows "ensureLimit ns (ensureLimit ns sql n) n = ensureLimit ns sql n"
proof -
  let ?T = "trimmed sql"
  let ?R = "ensureLimit ns sql n"
  have lead: "?T = [] \<or> \<not> is_space (hd ?T)" by (rule trimmed_no_leading_space)
  show ?thesis
  proof (cases "isSelect ?T \<and> \<not> keyword_test [''LIMIT''] ?T")
    case True
    then have R: "?R = ?T @ '' LIMIT '' @ ns n" by (simp add: ensureLimit_def Let_def)
    have "begins_with_select ?T" using True isSelect_iff [OF lead] by simp
    then have Tne: "?T \<noteq> []" by (auto simp: begins_with_select_def)
    then have "hd ?R = hd ?T" using R by simp
    then have nos: "no_outer_space ?R" using assms lead Tne R by (auto simp: no_outer_space_def)
    have Rne: "?R \<noteq> []" using R by simp
    have tr: "trimmed ?R = ?R"
      unfolding trimmed_def trim_id [OF nos]
      by (rule strip_semicolon_id) (use assms Rne in blast)
    have "?R = (?T @ '' '') @ ''LIMIT'' @ ('' '' @ ns n)" using R by simp
    moreover have "list_all2 ci_eq ''LIMIT'' ''LIMIT''" by (simp add: ci_eq_def)
    moreover have "\<not> is_word_char (last (?T @ '' ''))" by (simp add: is_word_char_def)
    moreover have "\<not> is_word_char (hd ('' '' @ ns n))" by (simp add: is_word_char_def)
    ultimately have "contains_keyword ''LIMIT'' ?R"
      unfolding contains_keyword_def by blast
    then have "keyword_test [''LIMIT''] ?R" by (simp add: limit_test_iff)
    then show ?thesis
      using tr by (simp add: ensureLimit_def [of ns ?R] Let_def)
  next
    case False
    then have R: "?R = ?T" by (auto simp: ensureLimit_def Let_def)
    have nos: "no_outer_space ?T" using assms lead R by (auto simp: no_outer_space_def)
    have t1: "trim ?T = ?T" by (rule trim_id [OF nos])
    have t2: "strip_semicolon ?T = ?T"
      by (rule strip_semicolon_id) (use assms R in auto)
    have tr: "trimmed ?T = ?T"
      by (simp only: trimmed_def [of ?T] t1 t2)
    show ?thesis using False tr R by (auto simp: ensureLimit_def [of ns ?T] Let_def)
  qed
qed

text \<open>
  C2, as amended. ensureLimit first removes the white space at both ends of the text, the
  leading as well as the trailing, and then one semicolon at the end, if there is one.
  If what is left begins with SELECT (in any case) and does not contain LIMIT as a whole
  word, the result is that text followed by \<^verbatim>\<open> LIMIT \<close> and the limit; if it contains LIMIT
  as a whole word, or does not begin with SELECT, the result is that text.
\<close>

theorem ensureLimit_trims_then_appends:
  "(\<exists>lead trail. sql = lead @ trim sql @ trail \<and> list_all is_space lead \<and>
      list_all is_space trail \<and> no_outer_space (trim sql)) \<and>
   trimmed sql =
     (if trim sql \<noteq> [] \<and> last (trim sql) = CHR '';'' then butlast (trim sql) else trim sql) \<and>
   (begins_with_select (trimmed sql) \<and> \<not> contains_keyword ''LIMIT'' (trimmed sql) \<longrightarrow>
      ensureLimit ns sql n = trimmed sql @ '' LIMIT '' @ ns n) \<and>
   (contains_keyword ''LIMIT'' (trimmed sql) \<longrightarrow> ensureLimit ns sql n = trimmed sql) \<and>
   (\<not> begins_with_select (trimmed sql) \<longrightarrow> ensureLimit ns sql n = trimmed sql)"
  using trim_decomp [of sql] ensureLimit_cases [of sql ns n]
  by (simp add: trimmed_def strip_semicolon_def)

theorem ensureLimit_trims_then_appends_witness:
  "ensureLimit show_integral ''  select id from t; '' 100 = ''select id from t LIMIT 100''"
proof -
  let ?sql = "''  select id from t; ''"
  have t: "trimmed ?sql = ''select id from t''"
    by (simp add: trimmed_def trim_def strip_semicolon_def is_space_def)
  have "isSelect (trimmed ?sql)"
    unfolding t by (simp add: isSelect_def is_space_def ci_eq_def upper_code_def)
  then have a: "begins_with_select (trimmed ?sql)"
    using isSelect_iff [OF trimmed_no_leading_space, of ?sql] by simp
  have "\<not> keyword_test [''LIMIT''] (trimmed ?sql)"
    unfolding t
    by (simp add: keyword_test_def keyword_here_def boundary_def word_at_def head_opt_def
          is_word_char_def ci_eq_def upper_code_def)
  then have b: "\<not> contains_keyword ''LIMIT'' (trimmed ?sql)"
    by (simp add: limit_test_iff)
  from ensureLimit_trims_then_appends [of ?sql show_integral 100] a b
  have "ensureLimit show_integral ?sql 100 = trimmed ?sql @ '' LIMIT '' @ show_integral 100"
    by blast
  then show ?thesis
    unfolding t by (simp add: show_integral_def digits.simps digit_char_def)
qed

text \<open>
  C2 as stated fails: a statement with LIMIT and a leading space is not returned unmodified
  up to the trimming of its end; the leading space is removed too.
\<close>

theorem ensureLimit_leading_space_counterexample:
  "ensureLimit show_integral '' SELECT 1 LIMIT 2'' 5 = ''SELECT 1 LIMIT 2'' \<and>
   spec_trimmed '' SELECT 1 LIMIT 2'' = '' SELECT 1 LIMIT 2'' \<and>
   keyword_test [''LIMIT''] '' SELECT 1 LIMIT 2''"
  by (simp add: ensureLimit_def trimmed_def trim_def strip_semicolon_def spec_trimmed_def
        isSelect_def keyword_test_def keyword_here_def boundary_def word_at_def head_opt_def
        is_space_def is_word_char_def ci_eq_def upper_code_def)

text \<open>
  C9, as amended. ensureLimit applied to its own result gives that result again whenever
  the result does not end with white space or a semicolon. That is so, in particular, when
  neither the trimmed text nor the text of the limit ends with white space or a semicolon.
\<close>

theorem ensureLimit_idempotent_on_settled:
  "((ensureLimit ns sql n = [] \<or>
     (\<not> is_space (last (ensureLimit ns sql n)) \<and> last (ensureLimit ns sql n) \<noteq> CHR '';'')) \<longrightarrow>
      ensureLimit ns (ensureLimit ns sql n) n = ensureLimit ns sql n) \<and>
   ((trimmed sql = [] \<or> (\<not> is_space (last (trimmed sql)) \<and> last (trimmed sql) \<noteq> CHR '';'')) \<and>
    ns n \<noteq> [] \<and> \<not> is_space (last (ns n)) \<and> last (ns n) \<noteq> CHR '';'' \<longrightarrow>
      ensureLimit ns (ensureLimit ns sql n) n = ensureLimit ns sql n)"
proof (intro conjI impI)
  assume "ensureLimit ns sql n = [] \<or>
     (\<not> is_space (last (ensureLimit ns sql n)) \<and> last (ensureLimit ns sql n) \<noteq> CHR '';'')"
  then show "ensureLimit ns (ensureLimit ns sql n) n = ensureLimit ns sql n"
    by (rule ensureLimit_again)
next
  assume h: "(trimmed sql = [] \<or>
      (\<not> is_space (last (trimmed sql)) \<and> last (trimmed sql) \<noteq> CHR '';'')) \<and>
    ns n \<noteq> [] \<and> \<not> is_space (last (ns n)) \<and> last (ns n) \<noteq> CHR '';''"
  have "ensureLimit ns sql n = trimmed sql \<or>
        ensureLimit ns sql n = trimmed sql @ '' LIMIT '' @ ns n"
    by (simp add: ensureLimit_def Let_def)
  then have "ensureLimit ns sql n = [] \<or>
     (\<not> is_space (last (ensureLimit ns sql n)) \<and> last (ensureLimit ns sql n) \<noteq> CHR '';'')"
    using h by auto
  then show "ensureLimit ns (ensureLimit ns sql n) n = ensureLimit ns sql n"
    by (rule ensureLimit_again)
qed

theorem ensureLimit_idempotent_on_settled_witness:
  "ensureLimit show_integral (ensureLimit show_integral ''SELECT 1;'' 5) 5 =
     ensureLimit show_integral ''SELECT 1;'' 5 \<and>
   ensureLimit show_integral ''SELECT 1;'' 5 = ''SELECT 1 LIMIT 5''"
proof -
  have r: "ensureLimit show_integral ''SELECT 1;'' 5 = ''SELECT 1 LIMIT 5''"
    by (simp add: ensureLimit_def trimmed_def trim_def strip_semicolon_def
          isSelect_def keyword_test_def keyword_here_def boundary_def word_at_def head_opt_def
          is_space_def is_word_char_def ci_eq_def upper_code_def
          show_integral_def digits.simps digit_char_def)
  have "\<not> is_space (last (ensureLimit show_integral ''SELECT 1;'' 5)) \<and>
        last (ensureLimit show_integral ''SELECT 1;'' 5) \<noteq> CHR '';''"
    unfolding r by (simp add: is_space_def)
  with ensureLimit_idempotent_on_settled [of show_integral "''SELECT 1;''" 5]
  have "ensureLimit show_integral (ensureLimit show_integral ''SELECT 1;'' 5) 5 =
     ensureLimit show_integral ''SELECT 1;'' 5"
    by blast
  then show ?thesis using r by simp
qed

text \<open>
  C9 as stated fails: of two semicolons at the end the first application removes one and
  the second application removes the other.
\<close>

theorem ensureLimit_idempotence_counterexample:
  "ensureLimit show_integral ''SELECT 1 LIMIT 2;;'' 5 = ''SELECT 1 LIMIT 2;'' \<and>
   ensureLimit show_integral (ensureLimit show_integral ''SELECT 1 LIMIT 2;;'' 5) 5 =
     ''SELECT 1 LIMIT 2''"
proof -
  have 1: "ensureLimit show_integral ''SELECT 1 LIMIT 2;;'' 5 = ''SELECT 1 LIMIT 2;''"
    by (simp add: ensureLimit_def trimmed_def trim_def strip_semicolon_def
          isSelect_def keyword_test_def keyword_here_def boundary_def word_at_def head_opt_def
          is_space_def is_word_char_def ci_eq_def upper_code_def)
  have 2: "ensureLimit show_integral ''SELECT 1 LIMIT 2;'' 5 = ''SELECT 1 LIMIT 2''"
    by (simp add: ensureLimit_def trimmed_def trim_def strip_semicolon_def
          isSelect_def keyword_test_def keyword_here_def boundary_def word_at_def head_opt_def
          is_space_def is_word_char_def ci_eq_def upper_code_def)
  show ?thesis unfolding 1 2 by simp
qed

subsection \<open>The connection manager\<close>

lemma after_both_or_neither: "both_or_neither m \<Longrightarrow> both_or_neither (after m op)"
  by (cases op)
     (auto simp: both_or_neither_def connect_def disconnect_def Let_def
           split: option.splits sum.splits prod.splits if_splits)

lemma foldl_both_or_neither:
  "both_or_neither m \<Longrightarrow> both_or_neither (foldl after m ops)"
  by (induction ops arbitrary: m) (simp_all add: after_both_or_neither)

lemma run_both_or_neither: "both_or_neither (run ops)"
  unfolding run_def
  by (rule foldl_both_or_neither) (simp add: both_or_neither_def initial_manager_def)

text \<open>
  C10. After every sequence of calls of connect, disconnect, queryReadOnly and query,
  whatever the driver answers, the pool handle and the stored configuration are both null
  or both set, so isConnected() is true exactly when getConnectionInfo() is not null; and
  disconnect on a manager that is not connected changes nothing and does not fail.
\<close>

theorem manager_pool_config_invariant:
  "both_or_neither (run ops) \<and>
   isConnected (run ops) = (getConnectionInfo (run ops) \<noteq> None) \<and>
   (\<not> isConnected m \<longrightarrow> disconnect end_err m = (Inr (), m))"
proof -
  have inv: "both_or_neither (run ops)" by (rule run_both_or_neither)
  then have "isConnected (run ops) = (getConnectionInfo (run ops) \<noteq> None)"
    by (simp add: both_or_neither_def isConnected_def getConnectionInfo_def)
  moreover have "\<not> isConnected m \<longrightarrow> disconnect end_err m = (Inr (), m)"
    by (simp add: isConnected_def disconnect_def)
  ultimately show ?thesis using inv by simp
qed

theorem manager_pool_config_invariant_witness:
  "both_or_neither
     (run [Disconnect None,
           Connect None (Some (Error ''timeout''))
             \<lparr>host = ''db'', port = 5432, database = ''app'', user = ''u'', password = ''p'',
              ssl = None\<rparr>,
           Query ''SELECT 1'' (Inr ()),
           Disconnect (Some (Error ''end failed'')),
           Disconnect None]) \<and>
   \<not> isConnected initial_manager \<and>
   disconnect (Some (Error ''end failed'')) initial_manager = (Inr (), initial_manager)"
  using manager_pool_config_invariant
    [of "[Disconnect None,
          Connect None (Some (Error ''timeout''))
            \<lparr>host = ''db'', port = 5432, database = ''app'', user = ''u'', password = ''p'',
             ssl = None\<rparr>,
          Query ''SELECT 1'' (Inr ()),
          Disconnect (Some (Error ''end failed'')),
          Disconnect None]" initial_manager "Some (Error ''end failed'')"]
  by (simp add: isConnected_def initial_manager_def)

text \<open>
  C7, as amended. When the manager is connected and a client is obtained, the client is
  released exactly once, as the last thing asked of it. If BEGIN, the statement and COMMIT
  succeed, the result of the statement is returned and no transaction is open. If one of
  them fails, ROLLBACK is issued immediately before the release; and if that ROLLBACK
  succeeds, the error that left the block is raised again and no transaction is open.
\<close>

theorem queryReadOnly_rollback_then_release:
  "pool m \<noteq> None \<and> on_acquire a = None \<longrightarrow>
     (\<exists>c. snd (queryReadOnly m sql a) = Some c \<and>
        released c = 1 \<and> count_list (log c) Release = 1 \<and> last (log c) = Release \<and>
        (case first_failure a of
           None \<Rightarrow>
             fst (queryReadOnly m sql a) = on_statement a \<and>
             log c = [Begin, Statement sql, Commit, Release] \<and> \<not> tx_open c
         | Some e \<Rightarrow>
             (\<exists>pre. log c = pre @ [Rollback, Release] \<and> Rollback \<notin> set pre) \<and>
             (on_rollback a = None \<longrightarrow>
                fst (queryReadOnly m sql a) = Inl e \<and> \<not> tx_open c)))"
  by (cases "on_begin a"; cases "on_statement a"; cases "on_commit a"; cases "on_rollback a")
     (auto simp: queryReadOnly_def ensureConnected_def try_body_def client_query_def
                 client_release_def fresh_client_def unit_answer_def first_failure_def)

theorem queryReadOnly_rollback_then_release_witness:
  "fst (queryReadOnly \<lparr>pool = Some (poolConfig_of cfg0), config = Some cfg0\<rparr> ''SELECT 1''
          \<lparr>on_acquire = None, on_begin = None,
           on_statement = (Inl (Error ''syntax error'') :: error + unit),
           on_commit = None, on_rollback = None\<rparr>) = Inl (Error ''syntax error'') \<and>
   map_option log
     (snd (queryReadOnly \<lparr>pool = Some (poolConfig_of cfg0), config = Some cfg0\<rparr> ''SELECT 1''
          \<lparr>on_acquire = None, on_begin = None,
           on_statement = (Inl (Error ''syntax error'') :: error + unit),
           on_commit = None, on_rollback = None\<rparr>)) =
     Some [Begin, Statement ''SELECT 1'', Rollback, Release]"
  using queryReadOnly_rollback_then_release
    [of "\<lparr>pool = Some (poolConfig_of cfg0), config = Some cfg0\<rparr>"
        "\<lparr>on_acquire = None, on_begin = None,
           on_statement = (Inl (Error ''syntax error'') :: error + unit),
           on_commit = None, on_rollback = None\<rparr>" "''SELECT 1''"]
  by (auto simp: first_failure_def queryReadOnly_def ensureConnected_def try_body_def
        client_query_def client_release_def fresh_client_def unit_answer_def)

text \<open>
  C7 as stated fails: when the statement fails and the ROLLBACK fails too, the error raised
  is that of the ROLLBACK, not the error of the statement, and the transaction that BEGIN
  opened has been neither committed nor rolled back.
\<close>

theorem queryReadOnly_reraise_counterexample:
  "queryReadOnly \<lparr>pool = Some (poolConfig_of cfg0), config = Some cfg0\<rparr> ''SELECT 1''
     \<lparr>on_acquire = None, on_begin = None,
      on_statement = (Inl (Error ''syntax error'') :: error + unit),
      on_commit = None, on_rollback = Some (Error ''connection lost'')\<rparr>
   = (Inl (Error ''connection lost''),
      Some \<lparr>log = [Begin, Statement ''SELECT 1'', Rollback, Release], tx_open = True,
            released = 1\<rparr>)"
  by (simp add: queryReadOnly_def ensureConnected_def try_body_def client_query_def
        client_release_def fresh_client_def unit_answer_def)

subsection \<open>Plan warnings\<close>

lemma node_warnings_rules: "node_warnings ns n w = w @ warning_rules ns n"
  by (simp add: node_warnings_def warning_rules_def Let_def)

lemma concat_map_concat_map:
  "concat (concat (map (\<lambda>x. map f (g x)) cs)) = concat (map (\<lambda>c. concat (map f (g c))) cs)"
  by (induction cs) simp_all

lemma foldl_appends:
  assumes "\<And>c acc. c \<in> set cs \<Longrightarrow> f c acc = acc @ g c"
  shows "foldl (\<lambda>acc c. f c acc) w cs = w @ concat (map g cs)"
  using assms by (induction cs arbitrary: w) simp_all

lemma extractWarnings_appends:
  "extractWarnings ns p acc = acc @ concat (map (warning_rules ns) (preorder p))"
proof (induction ns p acc rule: extractWarnings.induct)
  case (1 ns p warnings)
  show ?case
  proof (cases "Plans (innerPlan p)")
    case None
    then show ?thesis
      by (simp add: extractWarnings.simps [of ns p] preorder.simps [of p] Let_def
            node_warnings_rules)
  next
    case (Some children)
    have "foldl (\<lambda>acc child. extractWarnings ns child acc) w children =
          w @ concat (map (\<lambda>c. concat (map (warning_rules ns) (preorder c))) children)" for w
      by (rule foldl_appends) (rule "1.IH" [OF refl refl Some])
    then show ?thesis using Some
      by (simp add: extractWarnings.simps [of ns p] preorder.simps [of p] Let_def
            node_warnings_rules map_concat comp_def concat_map_concat_map)
  qed
qed

text \<open>
  C3. The result of extractWarnings is a function of the plan and of the warnings so far:
  it appends to them, in depth-first pre-order over the plan and its children (all of
  them, whether or not the node gave a warning), what the rule table gives for each node:
  for a Seq Scan the message with the relation and the rows when the rows exceed 10000,
  for a Nested Loop the message when the rows exceed 50000, for a Sort or a Hash the
  message with the node type and the cost when the cost exceeds 10000, and nothing
  otherwise.
\<close>

theorem extractWarnings_preorder_rules:
  "extractWarnings ns p acc = acc @ concat (map (warning_rules ns) (preorder p)) \<and>
   preorder p = innerPlan p # concat (map preorder (children_of (innerPlan p))) \<and>
   warning_rules ns n =
     (if Node_Type n = Some ''Seq Scan''
      then (if or_zero (Plan_Rows n) > 10000
            then [''Sequential scan on '' @ [CHR 0x22] @ text_of (Relation_Name n) @
                  [CHR 0x22] @ '' with ~'' @ ns (or_zero (Plan_Rows n)) @
                  '' estimated rows. Consider adding an index.'']
            else [])
      else if Node_Type n = Some ''Nested Loop''
      then (if or_zero (Plan_Rows n) > 50000 then [nested_loop_warning ns n] else [])
      else if Node_Type n = Some ''Sort'' \<or> Node_Type n = Some ''Hash''
      then (if or_zero (Total_Cost n) > 10000
            then [''High-cost '' @ text_of (Node_Type n) @ '' operation (cost: '' @
                  ns (or_zero (Total_Cost n)) @
                  ''). May benefit from more work_mem or query restructuring.'']
            else [])
      else [])"
proof (intro conjI)
  show "extractWarnings ns p acc = acc @ concat (map (warning_rules ns) (preorder p))"
    by (rule extractWarnings_appends)
  show "preorder p = innerPlan p # concat (map preorder (children_of (innerPlan p)))"
    by (cases "Plans (innerPlan p)") (simp_all add: preorder.simps [of p] children_of_def Let_def)
  show "warning_rules ns n =
     (if Node_Type n = Some ''Seq Scan''
      then (if or_zero (Plan_Rows n) > 10000
            then [''Sequential scan on '' @ [CHR 0x22] @ text_of (Relation_Name n) @
                  [CHR 0x22] @ '' with ~'' @ ns (or_zero (Plan_Rows n)) @
                  '' estimated rows. Consider adding an index.'']
            else [])
      else if Node_Type n = Some ''Nested Loop''
      then (if or_zero (Plan_Rows n) > 50000 then [nested_loop_warning ns n] else [])
      else if Node_Type n = Some ''Sort'' \<or> Node_Type n = Some ''Hash''
      then (if or_zero (Total_Cost n) > 10000
            then [''High-cost '' @ text_of (Node_Type n) @ '' operation (cost: '' @
                  ns (or_zero (Total_Cost n)) @
                  ''). May benefit from more work_mem or query restructuring.'']
            else [])
      else [])"
    by (simp add: warning_rules_def seq_scan_warning_def high_cost_warning_def)
qed

text \<open>
  The boundary: under an envelope, a scan of 15000 rows with a scan of exactly 10000 rows
  and a scan of 10001 rows below it gives two warnings, in this order, and none for the
  scan of 10000 rows.
\<close>

theorem extractWarnings_preorder_rules_witness:
  "extractWarnings show_integral
     (envelope (scan_node ''orders'' (Some ''(status = 'active')'') 15000
        (Some [scan_node ''a'' None 10000 None, scan_node ''b'' None 10001 None]))) [] =
   [''Sequential scan on '' @ [CHR 0x22] @ ''orders'' @ [CHR 0x22] @
      '' with ~15000 estimated rows. Consider adding an index.'',
    ''Sequential scan on '' @ [CHR 0x22] @ ''b'' @ [CHR 0x22] @
      '' with ~10001 estimated rows. Consider adding an index.'']"
  using extractWarnings_preorder_rules
    [of show_integral
        "envelope (scan_node ''orders'' (Some ''(status = 'active')'') 15000
           (Some [scan_node ''a'' None 10000 None, scan_node ''b'' None 10001 None]))" "[]"]
  by (simp add: preorder.simps envelope_def scan_node_def innerPlan_def warning_rules_def
        seq_scan_warning_def or_zero_def text_of_def show_integral_def digits.simps
        digit_char_def)

subsection \<open>Index suggestions\<close>

lemma seq_scan_rule_append: "seq_scan_rule ns n schema acc = acc @ seq_scan_rule ns n schema []"
  by (simp add: seq_scan_rule_def Let_def split: option.splits)

lemma sort_rule_append: "sort_rule ns n schema acc = acc @ sort_rule ns n schema []"
  by (simp add: sort_rule_def Let_def split: option.splits)

lemma rules_node_suggestions:
  "sort_rule ns n schema (seq_scan_rule ns n schema acc) = acc @ node_suggestions ns schema n"
  unfolding node_suggestions_def
  by (subst sort_rule_append, subst seq_scan_rule_append, subst (2) sort_rule_append) simp

lemma analyzePlanNode_visited:
  "analyzePlanNode ns n schema acc = acc @ concat (map (node_suggestions ns schema) (visited n))"
proof (induction ns n schema acc rule: analyzePlanNode.induct)
  case (1 ns node schema suggestions)
  show ?case
  proof (cases "Plans node")
    case None
    then show ?thesis
      by (simp add: analyzePlanNode.simps [of ns node] visited.simps [of node] Let_def
            rules_node_suggestions)
  next
    case (Some children)
    have "foldl (\<lambda>acc child. analyzePlanNode ns child schema acc) w children =
          w @ concat (map (\<lambda>c. concat (map (node_suggestions ns schema) (visited c))) children)"
      for w
      by (rule foldl_appends) (rule "1.IH" [OF refl Some])
    then show ?thesis using Some
      by (simp add: analyzePlanNode.simps [of ns node] visited.simps [of node] Let_def
            rules_node_suggestions map_concat comp_def concat_map_concat_map)
  qed
qed

lemma analyzePlanNode_node_then_children:
  "analyzePlanNode ns n schema acc =
     acc @ node_suggestions ns schema n @
     concat (map (\<lambda>c. analyzePlanNode ns c schema []) (children_of n))"
  by (cases "Plans n")
     (simp_all add: analyzePlanNode_visited [of ns n] analyzePlanNode_visited [of ns _ schema "[]"]
        visited.simps [of n] children_of_def map_concat comp_def concat_map_concat_map)

lemma column_here_nonempty: "column_here s = Some (col, rest) \<Longrightarrow> col \<noteq> []"
  by (auto simp: column_here_def Let_def split: list.splits if_splits)

lemma exec_from_nonempty: "exec_from s = Some (col, rest) \<Longrightarrow> col \<noteq> []"
  by (induction s) (auto split: option.splits dest: column_here_nonempty)

lemma removeAll_filter_notin:
  "removeAll col (filter (\<lambda>c. c \<notin> set found) xs) = filter (\<lambda>c. c \<notin> set (found @ [col])) xs"
  by (induction xs) auto

lemma extract_loop_first_seen:
  "extract_loop s found = found @ first_seen (filter (\<lambda>c. c \<notin> set found) (captures s))"
proof (induction s found rule: extract_loop.induct)
  case (1 found)
  then show ?case by simp
next
  case (2 c cs found)
  show ?case
  proof (cases "exec_from (c # cs)")
    case None
    then show ?thesis by simp
  next
    case (Some m)
    obtain col rest where m: "m = (col, rest)" by (cases m)
    have ne: "col \<noteq> []" using Some m exec_from_nonempty by blast
    show ?thesis
    proof (cases "col \<in> set found")
      case True
      then show ?thesis using Some m ne "2.IH" [OF Some m [symmetric]]
        by (simp del: exec_from.simps)
    next
      case False
      then show ?thesis using Some m ne "2.IH" [OF Some m [symmetric]]
        by (simp del: exec_from.simps add: removeAll_filter_notin)
    qed
  qed
qed

lemma set_first_seen: "set (first_seen xs) = set xs"
  by (induction xs rule: first_seen.induct) auto

lemma distinct_first_seen: "distinct (first_seen xs)"
  by (induction xs rule: first_seen.induct) (auto simp: set_first_seen)

lemma extractColumns_first_seen: "extractColumnsFromFilter f = first_seen (captures f)"
  by (simp add: extractColumnsFromFilter_def extract_loop_first_seen)

lemma operator_not_word: "is_operator_char c \<Longrightarrow> \<not> is_word_char c"
  by (auto simp: is_operator_char_def is_word_char_def)

lemma operator_not_space: "is_operator_char c \<Longrightarrow> \<not> is_space c"
  by (auto simp: is_operator_char_def is_space_def)

lemma space_not_word: "is_space c \<Longrightarrow> \<not> is_word_char c"
  by (auto simp: is_space_def is_word_char_def Let_def)

lemma takeWhile_run:
  "list_all P xs \<Longrightarrow> (ys = [] \<or> \<not> P (hd ys)) \<Longrightarrow> takeWhile P (xs @ ys) = xs"
  by (induction xs) (auto simp: takeWhile_eq_Nil_iff)

lemma dropWhile_run:
  "list_all P xs \<Longrightarrow> (ys = [] \<or> \<not> P (hd ys)) \<Longrightarrow> dropWhile P (xs @ ys) = ys"
  by (induction xs) (auto simp: dropWhile_eq_self_iff)

text \<open>
  The pattern of the filter, in words: an opening parenthesis, an identifier, white space
  or none, and a run of the characters \<^verbatim>\<open>= < > !\<close> that is not empty and goes as far as it can.
\<close>

lemma column_here_iff:
  "column_here s = Some (col, rest) \<longleftrightarrow>
     (\<exists>sp ops. s = CHR ''('' # col @ sp @ ops @ rest \<and>
        col \<noteq> [] \<and> list_all is_word_char col \<and> list_all is_space sp \<and>
        ops \<noteq> [] \<and> list_all is_operator_char ops \<and>
        (rest = [] \<or> \<not> is_operator_char (hd rest)))"
proof
  assume h: "column_here s = Some (col, rest)"
  then obtain cs where s: "s = CHR ''('' # cs"
    by (auto simp: column_here_def split: list.splits if_splits)
  let ?r1 = "dropWhile is_word_char cs"
  let ?r2 = "dropWhile is_space ?r1"
  from h s have col: "col = takeWhile is_word_char cs" and ne: "col \<noteq> []"
    and ops: "takeWhile is_operator_char ?r2 \<noteq> []"
    and rest: "rest = dropWhile is_operator_char ?r2"
    by (auto simp: column_here_def Let_def split: if_splits)
  have "cs = col @ takeWhile is_space ?r1 @ takeWhile is_operator_char ?r2 @ rest"
    using col rest by simp
  moreover have "list_all is_word_char col"
    unfolding col by (auto simp: list_all_iff dest: set_takeWhileD)
  moreover have "list_all is_space (takeWhile is_space ?r1)"
    by (auto simp: list_all_iff dest: set_takeWhileD)
  moreover have "list_all is_operator_char (takeWhile is_operator_char ?r2)"
    by (auto simp: list_all_iff dest: set_takeWhileD)
  moreover have "rest = [] \<or> \<not> is_operator_char (hd rest)"
    using rest hd_dropWhile [of is_operator_char ?r2] by auto
  ultimately show "\<exists>sp ops. s = CHR ''('' # col @ sp @ ops @ rest \<and>
        col \<noteq> [] \<and> list_all is_word_char col \<and> list_all is_space sp \<and>
        ops \<noteq> [] \<and> list_all is_operator_char ops \<and>
        (rest = [] \<or> \<not> is_operator_char (hd rest))"
    using s ne ops by blast
next
  assume "\<exists>sp ops. s = CHR ''('' # col @ sp @ ops @ rest \<and>
        col \<noteq> [] \<and> list_all is_word_char col \<and> list_all is_space sp \<and>
        ops \<noteq> [] \<and> list_all is_operator_char ops \<and>
        (rest = [] \<or> \<not> is_operator_char (hd rest))"
  then obtain sp ops where s: "s = CHR ''('' # col @ sp @ ops @ rest"
    and ne: "col \<noteq> []" and col: "list_all is_word_char col" and sp: "list_all is_space sp"
    and ops_ne: "ops \<noteq> []" and ops: "list_all is_operator_char ops"
    and rest: "rest = [] \<or> \<not> is_operator_char (hd rest)"
    by blast
  have hd_ops: "is_operator_char (hd ops)" using ops ops_ne by (cases ops) auto
  have after_col: "sp @ ops @ rest = [] \<or> \<not> is_word_char (hd (sp @ ops @ rest))"
    using sp hd_ops ops_ne by (cases sp) (auto simp: space_not_word operator_not_word)
  have after_sp: "ops @ rest = [] \<or> \<not> is_space (hd (ops @ rest))"
    using hd_ops ops_ne by (auto simp: operator_not_space)
  have t1: "takeWhile is_word_char (col @ sp @ ops @ rest) = col"
    by (rule takeWhile_run [OF col after_col])
  have d1: "dropWhile is_word_char (col @ sp @ ops @ rest) = sp @ ops @ rest"
    by (rule dropWhile_run [OF col after_col])
  have d2: "dropWhile is_space (sp @ ops @ rest) = ops @ rest"
    by (rule dropWhile_run [OF sp after_sp])
  have t3: "takeWhile is_operator_char (ops @ rest) = ops"
    by (rule takeWhile_run [OF ops rest])
  have d3: "dropWhile is_operator_char (ops @ rest) = rest"
    by (rule dropWhile_run [OF ops rest])
  show "column_here s = Some (col, rest)"
    using ne ops_ne by (simp add: column_here_def s t1 d1 d2 t3 d3 Let_def)
qed

lemma pattern_columns_Cons:
  "pattern_columns (c # cs) = column_at (c # cs) 0 @ pattern_columns cs"
proof -
  have "[0..<length (c # cs)] = 0 # map Suc [0..<length cs]"
    by (simp add: upt_conv_Cons map_Suc_upt del: upt_Suc)
  moreover have "column_at (c # cs) (Suc i) = column_at cs i" for i
    by (simp add: column_at_def)
  ultimately show ?thesis
    by (simp add: pattern_columns_def comp_def del: upt_Suc)
qed

lemma pattern_columns_Nil: "pattern_columns [] = []"
  by (simp add: pattern_columns_def)

lemma pattern_columns_skip:
  "CHR ''('' \<notin> set pre \<Longrightarrow> pattern_columns (pre @ rest) = pattern_columns rest"
proof (induction pre)
  case Nil
  then show ?case by simp
next
  case (Cons a pre)
  then have "a \<noteq> CHR ''(''" by auto
  then have "column_at (a # pre @ rest) 0 = []"
    by (simp add: column_at_def column_here_def)
  then show ?case using Cons by (simp add: pattern_columns_Cons)
qed

lemma no_paren:
  "list_all is_word_char col \<Longrightarrow> list_all is_space sp \<Longrightarrow> list_all is_operator_char ops
     \<Longrightarrow> CHR ''('' \<notin> set (col @ sp @ ops)"
  by (auto simp: list_all_iff is_word_char_def is_space_def is_operator_char_def)

lemma column_here_columns:
  assumes "column_here (c # cs) = Some (col, rest)"
  shows "pattern_columns (c # cs) = col # pattern_columns rest"
proof -
  from assms obtain sp ops where s: "c # cs = CHR ''('' # col @ sp @ ops @ rest"
    and w: "list_all is_word_char col" "list_all is_space sp" "list_all is_operator_char ops"
    using column_here_iff [of "c # cs" col rest] by blast
  have "CHR ''('' \<notin> set (col @ sp @ ops)" by (rule no_paren [OF w])
  then have "pattern_columns ((col @ sp @ ops) @ rest) = pattern_columns rest"
    by (rule pattern_columns_skip)
  moreover have "cs = (col @ sp @ ops) @ rest" using s by simp
  moreover have "column_at (c # cs) 0 = [col]" using assms by (simp add: column_at_def)
  ultimately show ?thesis by (simp add: pattern_columns_Cons)
qed

lemma exec_from_none_columns: "exec_from s = None \<Longrightarrow> pattern_columns s = []"
proof (induction s)
  case Nil
  then show ?case by (simp add: pattern_columns_Nil)
next
  case (Cons c cs)
  then have "column_here (c # cs) = None" and "exec_from cs = None"
    by (auto split: option.splits)
  then show ?case using Cons.IH
    by (simp add: pattern_columns_Cons column_at_def)
qed

lemma exec_from_some_columns:
  "exec_from s = Some (col, rest) \<Longrightarrow> pattern_columns s = col # pattern_columns rest"
proof (induction s)
  case Nil
  then show ?case by simp
next
  case (Cons c cs)
  show ?case
  proof (cases "column_here (c # cs)")
    case None
    then have "exec_from cs = Some (col, rest)" using Cons.prems by simp
    then have "pattern_columns cs = col # pattern_columns rest" by (rule Cons.IH)
    then show ?thesis using None by (simp add: pattern_columns_Cons column_at_def)
  next
    case (Some m)
    then have "column_here (c # cs) = Some (col, rest)" using Cons.prems by simp
    then show ?thesis by (rule column_here_columns)
  qed
qed

lemma captures_pattern_columns: "captures s = pattern_columns s"
proof (induction s rule: captures.induct)
  case 1
  then show ?case by (simp add: pattern_columns_Nil)
next
  case (2 c cs)
  show ?case
  proof (cases "exec_from (c # cs)")
    case None
    then show ?thesis using exec_from_none_columns [OF None] by simp
  next
    case (Some m)
    obtain col rest where m: "m = (col, rest)" by (cases m)
    have "captures rest = pattern_columns rest"
      using "2.IH" [OF Some m [symmetric]] .
    then show ?thesis
      using Some m exec_from_some_columns [of "c # cs" col rest]
      by (simp del: exec_from.simps)
  qed
qed

lemma column_at_iff:
  "column_at f i = [col] \<longleftrightarrow>
     (\<exists>sp ops rest. drop i f = CHR ''('' # col @ sp @ ops @ rest \<and>
        col \<noteq> [] \<and> list_all is_word_char col \<and> list_all is_space sp \<and>
        ops \<noteq> [] \<and> list_all is_operator_char ops \<and>
        (rest = [] \<or> \<not> is_operator_char (hd rest)))"
proof -
  have "column_at f i = [col] \<longleftrightarrow> (\<exists>rest. column_here (drop i f) = Some (col, rest))"
    by (auto simp: column_at_def split: option.splits)
  then show ?thesis
    using column_here_iff [of "drop i f" col] by blast
qed

lemma column_at_short: "length (column_at f i) \<le> 1"
  by (simp add: column_at_def split: option.splits)

lemma first_seen_snoc:
  "first_seen (xs @ [x]) = (if x \<in> set xs then first_seen xs else first_seen xs @ [x])"
proof (induction xs rule: first_seen.induct)
  case 1
  then show ?case by simp
next
  case (2 a xs)
  then show ?case by auto
qed

lemma seq_scan_node_suggestions:
  assumes "Node_Type n = Some ''Seq Scan''" and "Filter n = Some f"
    and "or_zero (Plan_Rows n) > 1000"
  shows "node_suggestions ns schema n =
     (if extractColumnsFromFilter f = [] then []
      else [\<lparr>table = Relation_Name n,
             columns = extractColumnsFromFilter f,
             reason = ''Sequential scan with filter on '' @
               join '', '' (extractColumnsFromFilter f) @
               '' scanning ~'' @ ns (or_zero (Plan_Rows n)) @ '' rows'',
             impact = (if or_zero (Plan_Rows n) > 100000 then high
                       else if or_zero (Plan_Rows n) > 10000 then medium else low),
             createStatement = ''CREATE INDEX idx_'' @ text_of (Relation_Name n) @ ''_'' @
               join ''_'' (extractColumnsFromFilter f) @ '' ON '' @ schema @ ''.'' @
               text_of (Relation_Name n) @ '' ('' @
               join '', '' (extractColumnsFromFilter f) @ '');''\<rparr>])"
proof (cases "f = []")
  case True
  then show ?thesis using assms
    by (simp add: node_suggestions_def seq_scan_rule_def sort_rule_def Let_def
          extractColumnsFromFilter_def)
next
  case False
  then show ?thesis using assms
    by (simp add: node_suggestions_def seq_scan_rule_def sort_rule_def Let_def)
qed

text \<open>
  C4. At a node of type Seq Scan with a filter and more than 1000 estimated rows,
  analyzePlanNode appends one suggestion, before it goes on to the children. Its columns
  are the identifiers the pattern matches in the filter, at whatever positions, from left
  to right, without duplicates and in the order of their first occurrence. The pattern
  matches at a position when an opening parenthesis stands there, followed by an
  identifier, white space or none, and a run of the characters \<^verbatim>\<open>= < > !\<close> that is not empty.
  The impact is high above 100000 rows, medium above 10000 and low otherwise; the statement
  is \<^verbatim>\<open>CREATE INDEX idx_<table>_<col1>_<col2>... ON <schema>.<table> (<cols>);\<close>. When the
  pattern finds no column, nothing is appended.
\<close>

theorem seq_scan_index_suggestion:
  "(Node_Type n = Some ''Seq Scan'' \<and> Filter n = Some f \<and> or_zero (Plan_Rows n) > 1000 \<longrightarrow>
     analyzePlanNode ns n schema acc =
       acc @
       (if extractColumnsFromFilter f = [] then []
        else [\<lparr>table = Relation_Name n,
               columns = extractColumnsFromFilter f,
               reason = ''Sequential scan with filter on '' @
                 join '', '' (extractColumnsFromFilter f) @
                 '' scanning ~'' @ ns (or_zero (Plan_Rows n)) @ '' rows'',
               impact = (if or_zero (Plan_Rows n) > 100000 then high
                         else if or_zero (Plan_Rows n) > 10000 then medium else low),
               createStatement = ''CREATE INDEX idx_'' @ text_of (Relation_Name n) @ ''_'' @
                 join ''_'' (extractColumnsFromFilter f) @ '' ON '' @ schema @ ''.'' @
                 text_of (Relation_Name n) @ '' ('' @
                 join '', '' (extractColumnsFromFilter f) @ '');''\<rparr>]) @
       concat (map (\<lambda>c. analyzePlanNode ns c schema []) (children_of n))) \<and>
   extractColumnsFromFilter f = first_seen (concat (map (column_at f) [0..<length f])) \<and>
   (column_at f i = [col] \<longleftrightarrow>
      (\<exists>sp ops rest. drop i f = CHR ''('' # col @ sp @ ops @ rest \<and>
         col \<noteq> [] \<and> list_all is_word_char col \<and> list_all is_space sp \<and>
         ops \<noteq> [] \<and> list_all is_operator_char ops \<and>
         (rest = [] \<or> \<not> is_operator_char (hd rest)))) \<and>
   length (column_at f i) \<le> 1 \<and>
   first_seen [] = ([] :: string list) \<and>
   first_seen (xs @ [x]) = (if x \<in> set xs then first_seen xs else first_seen xs @ [x])"
proof (intro conjI impI)
  assume h: "Node_Type n = Some ''Seq Scan'' \<and> Filter n = Some f \<and> or_zero (Plan_Rows n) > 1000"
  then have "Node_Type n = Some ''Seq Scan''" and "Filter n = Some f"
    and "or_zero (Plan_Rows n) > 1000"
    by simp_all
  from seq_scan_node_suggestions [OF this, of ns schema]
  show "analyzePlanNode ns n schema acc =
       acc @
       (if extractColumnsFromFilter f = [] then []
        else [\<lparr>table = Relation_Name n,
               columns = extractColumnsFromFilter f,
               reason = ''Sequential scan with filter on '' @
                 join '', '' (extractColumnsFromFilter f) @
                 '' scanning ~'' @ ns (or_zero (Plan_Rows n)) @ '' rows'',
               impact = (if or_zero (Plan_Rows n) > 100000 then high
                         else if or_zero (Plan_Rows n) > 10000 then medium else low),
               createStatement = ''CREATE INDEX idx_'' @ text_of (Relation_Name n) @ ''_'' @
                 join ''_'' (extractColumnsFromFilter f) @ '' ON '' @ schema @ ''.'' @
                 text_of (Relation_Name n) @ '' ('' @
                 join '', '' (extractColumnsFromFilter f) @ '');''\<rparr>]) @
       concat (map (\<lambda>c. analyzePlanNode ns c schema []) (children_of n))"
    by (simp only: analyzePlanNode_node_then_children [of ns n schema acc])
next
  show "extractColumnsFromFilter f = first_seen (concat (map (column_at f) [0..<length f]))"
    using extractColumns_first_seen [of f] captures_pattern_columns [of f]
    by (simp add: pattern_columns_def)
next
  show "column_at f i = [col] \<longleftrightarrow>
      (\<exists>sp ops rest. drop i f = CHR ''('' # col @ sp @ ops @ rest \<and>
         col \<noteq> [] \<and> list_all is_word_char col \<and> list_all is_space sp \<and>
         ops \<noteq> [] \<and> list_all is_operator_char ops \<and>
         (rest = [] \<or> \<not> is_operator_char (hd rest)))"
    by (rule column_at_iff)
next
  show "length (column_at f i) \<le> 1" by (rule column_at_short)
next
  show "first_seen [] = ([] :: string list)" by simp
next
  show "first_seen (xs @ [x]) = (if x \<in> set xs then first_seen xs else first_seen xs @ [x])"
    by (rule first_seen_snoc)
qed

text \<open>
  A scan of 2000 rows whose filter names \<^verbatim>\<open>user_id\<close> twice and \<^verbatim>\<open>status\<close> once, at three
  positions of the filter, gives one suggestion on the two columns; 2000 is not above
  10000, so its impact is low.
\<close>

theorem seq_scan_index_suggestion_witness:
  "analyzePlanNode show_integral
     (scan_node ''orders'' (Some ''((user_id = 5) AND (status <> 1) AND (user_id >= 1))'')
        2000 None)
     ''public'' [] =
   [\<lparr>table = Some ''orders'', columns = [''user_id'', ''status''],
     reason = ''Sequential scan with filter on user_id, status scanning ~2000 rows'',
     impact = low,
     createStatement =
       ''CREATE INDEX idx_orders_user_id_status ON public.orders (user_id, status);''\<rparr>]"
proof -
  let ?f = "''((user_id = 5) AND (status <> 1) AND (user_id >= 1))''"
  let ?n = "scan_node ''orders'' (Some ?f) 2000 None"
  have cols: "extractColumnsFromFilter ?f = [''user_id'', ''status'']"
    by (simp add: extractColumnsFromFilter_def column_here_def is_word_char_def is_space_def
          is_operator_char_def)
  have h: "Node_Type ?n = Some ''Seq Scan'' \<and> Filter ?n = Some ?f \<and>
      or_zero (Plan_Rows ?n) > 1000"
    by (simp add: scan_node_def or_zero_def)
  note at_node =
    seq_scan_index_suggestion [of ?n ?f show_integral "''public''" "[]",
      THEN conjunct1, rule_format, OF h]
  show ?thesis
    unfolding at_node cols
    by (simp add: scan_node_def or_zero_def text_of_def children_of_def
          show_integral_def digits.simps digit_char_def)
qed

lemma markers_differ:
  assumes "list_all2 ci_eq m '' ASC''" and "list_all2 ci_eq m' '' DESC''"
  shows "m @ r \<noteq> m' @ r'"
proof
  assume same: "m @ r = m' @ r'"
  have len: "length m = 4" "length m' = 5"
    using assms by (auto dest: list_all2_lengthD)
  then have "(m @ r) ! 1 = m ! 1" and "(m' @ r') ! 1 = m' ! 1"
    by (simp_all add: nth_append)
  then have "m ! 1 = m' ! 1" using same by simp
  moreover have "ci_eq (m ! 1) CHR ''A''"
    using list_all2_nthD [OF assms(1), of 1] len by simp
  moreover have "ci_eq (m' ! 1) CHR ''D''"
    using list_all2_nthD [OF assms(2), of 1] len by simp
  ultimately have "upper_code CHR ''A'' = upper_code CHR ''D''"
    by (simp add: ci_eq_def)
  then show False by (simp add: upper_code_def)
qed

lemma direction_here_iff:
  "direction_here s = Some rest \<longleftrightarrow> (\<exists>m. s = m @ rest \<and> is_direction_marker m)"
proof
  assume "direction_here s = Some rest"
  then have "ci_prefix '' ASC'' s = Some rest \<or> ci_prefix '' DESC'' s = Some rest"
    by (auto simp: direction_here_def split: option.splits)
  then show "\<exists>m. s = m @ rest \<and> is_direction_marker m"
    unfolding is_direction_marker_def ci_prefix_iff by blast
next
  assume "\<exists>m. s = m @ rest \<and> is_direction_marker m"
  then obtain m where m: "s = m @ rest" and mark: "is_direction_marker m" by blast
  show "direction_here s = Some rest"
  proof (cases "list_all2 ci_eq m '' ASC''")
    case True
    then have "ci_prefix '' ASC'' s = Some rest" using m ci_prefix_iff by blast
    then show ?thesis by (simp add: direction_here_def)
  next
    case False
    then have desc: "list_all2 ci_eq m '' DESC''"
      using mark by (simp add: is_direction_marker_def)
    then have d: "ci_prefix '' DESC'' s = Some rest" using m ci_prefix_iff by blast
    have "ci_prefix '' ASC'' s = None"
    proof (cases "ci_prefix '' ASC'' s")
      case None
      then show ?thesis .
    next
      case (Some r)
      then obtain m' where "s = m' @ r" and "list_all2 ci_eq m' '' ASC''"
        using ci_prefix_iff by blast
      then show ?thesis using markers_differ [of m' m r rest] desc m by simp
    qed
    then show ?thesis using d by (simp add: direction_here_def)
  qed
qed

lemma strip_direction_none:
  "(\<And>j. direction_here (drop j s) = None) \<Longrightarrow> strip_direction s = s"
proof (induction s)
  case Nil
  then show ?case by simp
next
  case (Cons c s)
  have here: "direction_here (c # s) = None" using Cons.prems [of 0] by simp
  have "direction_here (drop j s) = None" for j using Cons.prems [of "Suc j"] by simp
  then show ?case using Cons.IH here by simp
qed

lemma strip_direction_first:
  "direction_here (drop i s) = Some rest \<Longrightarrow> (\<And>j. j < i \<Longrightarrow> direction_here (drop j s) = None)
     \<Longrightarrow> strip_direction s = take i s @ rest"
proof (induction s arbitrary: i)
  case Nil
  then show ?case by (simp add: direction_here_def)
next
  case (Cons c s)
  show ?case
  proof (cases i)
    case 0
    then show ?thesis using Cons.prems(1) by simp
  next
    case (Suc k)
    have here: "direction_here (c # s) = None" using Cons.prems(2) [of 0] Suc by simp
    have "direction_here (drop j s) = None" if "j < k" for j
      using Cons.prems(2) [of "Suc j"] that Suc by simp
    then have "strip_direction s = take k s @ rest"
      using Cons.IH [of k] Cons.prems(1) Suc by simp
    then show ?thesis using here Suc by simp
  qed
qed

lemma strip_direction_cases:
  "((\<forall>j. direction_here (drop j t) = None) \<and> strip_direction t = t) \<or>
   (\<exists>i rest. direction_here (drop i t) = Some rest \<and>
      (\<forall>j<i. direction_here (drop j t) = None) \<and> strip_direction t = take i t @ rest)"
proof (cases "\<forall>j. direction_here (drop j t) = None")
  case True
  then show ?thesis using strip_direction_none [of t] by simp
next
  case False
  then obtain i0 where "direction_here (drop i0 t) \<noteq> None" by blast
  define i where "i = (LEAST i. direction_here (drop i t) \<noteq> None)"
  have i: "direction_here (drop i t) \<noteq> None"
    unfolding i_def by (rule LeastI [of "\<lambda>i. direction_here (drop i t) \<noteq> None" i0]) fact
  have least: "direction_here (drop j t) = None" if "j < i" for j
    using not_less_Least [of j "\<lambda>i. direction_here (drop i t) \<noteq> None"] that
    unfolding i_def by blast
  from i obtain rest where "direction_here (drop i t) = Some rest" by auto
  then show ?thesis using least strip_direction_first [of i t rest] by blast
qed

lemma strip_qualifier_single_line:
  assumes "list_all (\<lambda>c. \<not> is_line_terminator c) k"
  shows "strip_qualifier k = after_last_dot k"
proof (cases k)
  case Nil
  then show ?thesis by (simp add: after_last_dot_def)
next
  case (Cons c cs)
  have t: "takeWhile (\<lambda>x. \<not> is_line_terminator x) (c # cs) = c # cs"
    using assms Cons by (simp add: list_all_iff takeWhile_eq_all_conv del: takeWhile.simps)
  have d: "dropWhile (\<lambda>x. \<not> is_line_terminator x) (c # cs) = []"
    using assms Cons by (simp add: list_all_iff del: dropWhile.simps)
  have unfolded: "strip_qualifier (c # cs) =
      (if CHR ''.'' \<in> set (c # cs) then after_last_dot (c # cs) else c # cs)"
    unfolding strip_qualifier.simps Let_def t d by simp
  have "after_last_dot (c # cs) = c # cs" if "CHR ''.'' \<notin> set (c # cs)"
  proof -
    have "takeWhile (\<lambda>x. x \<noteq> CHR ''.'') (rev (c # cs)) = rev (c # cs)"
      using that by (subst takeWhile_eq_all_conv) auto
    then show ?thesis unfolding after_last_dot_def by (simp only: rev_rev_ident)
  qed
  then show ?thesis using unfolded Cons by auto
qed

lemma after_last_dot_decomp:
  "\<exists>pre. k = pre @ after_last_dot k \<and> CHR ''.'' \<notin> set (after_last_dot k) \<and>
         (pre = [] \<or> last pre = CHR ''.'')"
proof -
  let ?P = "\<lambda>c. c \<noteq> CHR ''.''"
  have split: "rev k = takeWhile ?P (rev k) @ dropWhile ?P (rev k)" by simp
  then have "k = rev (dropWhile ?P (rev k)) @ after_last_dot k"
    unfolding after_last_dot_def by (metis rev_append rev_rev_ident)
  moreover have "CHR ''.'' \<notin> set (after_last_dot k)"
    by (auto simp: after_last_dot_def dest: set_takeWhileD)
  moreover have "rev (dropWhile ?P (rev k)) = [] \<or> last (rev (dropWhile ?P (rev k))) = CHR ''.''"
    using hd_dropWhile [of ?P "rev k"] by (auto simp: last_rev)
  ultimately show ?thesis by blast
qed


lemma marker_at_direction_here: "marker_at j t \<longleftrightarrow> direction_here (drop j t) \<noteq> None"
  using direction_here_iff [of "drop j t"] by (auto simp: marker_at_def)

lemma sort_node_suggestions:
  assumes "Node_Type n = Some ''Sort''" and "Sort_Key n = Some keys" and "keys \<noteq> []"
    and "or_zero (Plan_Rows n) > 5000"
  shows "node_suggestions ns schema n =
     [\<lparr>table = Some (case Relation_Name n of None \<Rightarrow> ''unknown'' | Some t \<Rightarrow> t),
       columns = map sort_column keys,
       reason = ''Sort operation on '' @ join '', '' (map sort_column keys) @ '' with ~'' @
         ns (or_zero (Plan_Rows n)) @ '' rows. An index could eliminate the sort.'',
       impact = (if or_zero (Plan_Rows n) > 50000 then high else medium),
       createStatement = sort_template schema (map sort_column keys)\<rparr>]"
  using assms
  by (simp add: node_suggestions_def seq_scan_rule_def sort_rule_def Let_def
        split: option.splits)

text \<open>
  What analyzePlanNode does at a node of type Sort with a sort key array that is not empty
  and more than 5000 estimated rows: it appends one suggestion, before it goes on to the
  children. The columns are the sort keys, each changed in two steps; for a key of one
  line the first step removes everything up to and including the last dot, and the second
  step removes the leftmost direction marker, wherever it stands in what is left.
\<close>

lemma sort_index_suggestion:
  "(Node_Type n = Some ''Sort'' \<and> Sort_Key n = Some keys \<and> keys \<noteq> [] \<and>
    or_zero (Plan_Rows n) > 5000 \<longrightarrow>
      analyzePlanNode ns n schema acc =
        acc @
        [\<lparr>table = Some (case Relation_Name n of None \<Rightarrow> ''unknown'' | Some t \<Rightarrow> t),
          columns = map sort_column keys,
          reason = ''Sort operation on '' @ join '', '' (map sort_column keys) @ '' with ~'' @
            ns (or_zero (Plan_Rows n)) @ '' rows. An index could eliminate the sort.'',
          impact = (if or_zero (Plan_Rows n) > 50000 then high else medium),
          createStatement =
            ''-- Consider adding an index to support this sort:'' @ [CHR 0x0A] @
            ''-- CREATE INDEX idx_sort_'' @ join ''_'' (map sort_column keys) @ '' ON '' @
            schema @ ''.<table> ('' @ join '', '' (map sort_column keys) @ '');''\<rparr>] @
        concat (map (\<lambda>c. analyzePlanNode ns c schema []) (children_of n))) \<and>
   sort_column k = strip_direction (strip_qualifier k) \<and>
   (list_all (\<lambda>c. \<not> is_line_terminator c) k \<longrightarrow>
      (\<exists>pre. k = pre @ strip_qualifier k \<and> CHR ''.'' \<notin> set (strip_qualifier k) \<and>
             (pre = [] \<or> last pre = CHR ''.''))) \<and>
   (((\<forall>j. \<not> marker_at j t) \<and> strip_direction t = t) \<or>
    (\<exists>i m rest. drop i t = m @ rest \<and> is_direction_marker m \<and>
       (\<forall>j<i. \<not> marker_at j t) \<and> strip_direction t = take i t @ rest))"
proof (intro conjI impI)
  assume h: "Node_Type n = Some ''Sort'' \<and> Sort_Key n = Some keys \<and> keys \<noteq> [] \<and>
    or_zero (Plan_Rows n) > 5000"
  then have "Node_Type n = Some ''Sort''" and "Sort_Key n = Some keys" and "keys \<noteq> []"
    and "or_zero (Plan_Rows n) > 5000"
    by simp_all
  from sort_node_suggestions [OF this, of ns schema]
  show "analyzePlanNode ns n schema acc =
        acc @
        [\<lparr>table = Some (case Relation_Name n of None \<Rightarrow> ''unknown'' | Some t \<Rightarrow> t),
          columns = map sort_column keys,
          reason = ''Sort operation on '' @ join '', '' (map sort_column keys) @ '' with ~'' @
            ns (or_zero (Plan_Rows n)) @ '' rows. An index could eliminate the sort.'',
          impact = (if or_zero (Plan_Rows n) > 50000 then high else medium),
          createStatement =
            ''-- Consider adding an index to support this sort:'' @ [CHR 0x0A] @
            ''-- CREATE INDEX idx_sort_'' @ join ''_'' (map sort_column keys) @ '' ON '' @
            schema @ ''.<table> ('' @ join '', '' (map sort_column keys) @ '');''\<rparr>] @
        concat (map (\<lambda>c. analyzePlanNode ns c schema []) (children_of n))"
    by (simp add: analyzePlanNode_node_then_children [of ns n schema acc] sort_template_def)
next
  show "sort_column k = strip_direction (strip_qualifier k)"
    by (simp add: sort_column_def)
next
  assume "list_all (\<lambda>c. \<not> is_line_terminator c) k"
  then have "strip_qualifier k = after_last_dot k"
    by (rule strip_qualifier_single_line)
  then show "\<exists>pre. k = pre @ strip_qualifier k \<and> CHR ''.'' \<notin> set (strip_qualifier k) \<and>
             (pre = [] \<or> last pre = CHR ''.'')"
    using after_last_dot_decomp [of k] by simp
next
  from strip_direction_cases [of t]
  show "((\<forall>j. \<not> marker_at j t) \<and> strip_direction t = t) \<or>
    (\<exists>i m rest. drop i t = m @ rest \<and> is_direction_marker m \<and>
       (\<forall>j<i. \<not> marker_at j t) \<and> strip_direction t = take i t @ rest)"
  proof
    assume "(\<forall>j. direction_here (drop j t) = None) \<and> strip_direction t = t"
    then show ?thesis by (simp add: marker_at_direction_here)
  next
    assume "\<exists>i rest. direction_here (drop i t) = Some rest \<and>
      (\<forall>j<i. direction_here (drop j t) = None) \<and> strip_direction t = take i t @ rest"
    then obtain i rest where here: "direction_here (drop i t) = Some rest"
      and first: "\<forall>j<i. direction_here (drop j t) = None"
      and res: "strip_direction t = take i t @ rest"
      by blast
    from here obtain m where "drop i t = m @ rest" and "is_direction_marker m"
      using direction_here_iff by blast
    then show ?thesis using first res by (auto simp: marker_at_direction_here)
  qed
qed

lemma sort_index_suggestion_example:
  "analyzePlanNode show_integral (sort_node [''users.created_at DESC'', ''name''] 60000 12000 None)
     ''public'' [] =
   [\<lparr>table = Some ''unknown'', columns = [''created_at'', ''name''],
     reason = ''Sort operation on created_at, name with ~60000 rows. '' @
       ''An index could eliminate the sort.'',
     impact = high,
     createStatement =
       ''-- Consider adding an index to support this sort:'' @ [CHR 0x0A] @
       ''-- CREATE INDEX idx_sort_created_at_name ON public.<table> (created_at, name);''\<rparr>]"
  using sort_index_suggestion
    [of "sort_node [''users.created_at DESC'', ''name''] 60000 12000 None"
        "[''users.created_at DESC'', ''name'']" show_integral "''public''" "[]"]
  by (simp add: sort_node_def or_zero_def children_of_def sort_column_def Let_def
        after_last_dot_def is_line_terminator_def direction_here_def ci_eq_def upper_code_def
        show_integral_def digits.simps digit_char_def)

text \<open>
  C5. The columns are to be the sort keys without a qualifying table prefix and without a
  trailing direction marker. The code does not do that for a key that is an expression:
  \<^verbatim>\<open>((price * 1.5))\<close>, as PostgreSQL prints the key of \<^verbatim>\<open>ORDER BY price * 1.5\<close>, has no table
  prefix and no direction marker, yet the first replace takes the text up to the decimal
  point for a prefix, and the column of the suggestion is \<^verbatim>\<open>5))\<close>.
\<close>

theorem sort_column_of_expression_key:
  "analyzePlanNode show_integral (sort_node [''((price * 1.5))''] 6000 12000 None)
     ''public'' [] =
   [\<lparr>table = Some ''unknown'', columns = [''5))''],
     reason = ''Sort operation on 5)) with ~6000 rows. An index could eliminate the sort.'',
     impact = medium,
     createStatement =
       ''-- Consider adding an index to support this sort:'' @ [CHR 0x0A] @
       ''-- CREATE INDEX idx_sort_5)) ON public.<table> (5)));''\<rparr>] \<and>
   map spec_sort_column [''((price * 1.5))''] = [''((price * 1.5))'']"
proof (intro conjI)
  show "analyzePlanNode show_integral (sort_node [''((price * 1.5))''] 6000 12000 None)
     ''public'' [] =
   [\<lparr>table = Some ''unknown'', columns = [''5))''],
     reason = ''Sort operation on 5)) with ~6000 rows. An index could eliminate the sort.'',
     impact = medium,
     createStatement =
       ''-- Consider adding an index to support this sort:'' @ [CHR 0x0A] @
       ''-- CREATE INDEX idx_sort_5)) ON public.<table> (5)));''\<rparr>]"
    by (simp add: analyzePlanNode_visited visited.simps
          sort_node_def node_suggestions_def seq_scan_rule_def sort_rule_def or_zero_def
          sort_column_def sort_template_def Let_def after_last_dot_def is_line_terminator_def
          direction_here_def ci_eq_def upper_code_def
          show_integral_def digits.simps digit_char_def)
  show "map spec_sort_column [''((price * 1.5))''] = [''((price * 1.5))'']"
    by (simp add: spec_sort_column_def spec_strip_table_prefix.simps
          spec_strip_trailing_direction_def is_word_char_def direction_here_def ci_eq_def
          upper_code_def Let_def)
qed




text \<open>
  Where a node below the root has the key \<^verbatim>\<open>Plan\<close>, which the output of EXPLAIN never has, the
  two traversals part: analyzePlanNode reads the envelope itself and finds no node type in
  it.
\<close>

lemma suggestIndexes_envelope_below_root:
  "suggestIndexes show_integral limit_over_wrapped_scan ''public'' = [] \<and>
   concat (map (node_suggestions show_integral ''public'') (preorder limit_over_wrapped_scan)) =
     [\<lparr>table = Some ''orders'', columns = [''user_id''],
       reason = ''Sequential scan with filter on user_id scanning ~20000 rows'',
       impact = medium,
       createStatement = ''CREATE INDEX idx_orders_user_id ON public.orders (user_id);''\<rparr>] \<and>
   extractWarnings show_integral limit_over_wrapped_scan [] =
     [''Sequential scan on '' @ [CHR 0x22] @ ''orders'' @ [CHR 0x22] @
        '' with ~20000 estimated rows. Consider adding an index.'']"
proof (intro conjI)
  show "suggestIndexes show_integral limit_over_wrapped_scan ''public'' = []"
    by (simp add: suggestIndexes_def analyzePlanNode_visited visited.simps
          limit_over_wrapped_scan_def envelope_def scan_node_def innerPlan_def
          node_suggestions_def seq_scan_rule_def sort_rule_def or_zero_def)
  show "concat (map (node_suggestions show_integral ''public'')
          (preorder limit_over_wrapped_scan)) =
     [\<lparr>table = Some ''orders'', columns = [''user_id''],
       reason = ''Sequential scan with filter on user_id scanning ~20000 rows'',
       impact = medium,
       createStatement = ''CREATE INDEX idx_orders_user_id ON public.orders (user_id);''\<rparr>]"
    by (simp add: preorder.simps limit_over_wrapped_scan_def envelope_def scan_node_def
          innerPlan_def node_suggestions_def seq_scan_rule_def sort_rule_def or_zero_def
          text_of_def extractColumnsFromFilter_def column_here_def is_word_char_def
          is_space_def is_operator_char_def show_integral_def digits.simps digit_char_def)
  show "extractWarnings show_integral limit_over_wrapped_scan [] =
     [''Sequential scan on '' @ [CHR 0x22] @ ''orders'' @ [CHR 0x22] @
        '' with ~20000 estimated rows. Consider adding an index.'']"
    by (simp add: extractWarnings_appends preorder.simps limit_over_wrapped_scan_def
          envelope_def scan_node_def innerPlan_def warning_rules_def seq_scan_warning_def
          or_zero_def text_of_def show_integral_def digits.simps digit_char_def)
qed

subsection \<open>The health report\<close>

text \<open>
  C8. When the aggregate is undefined (the cell is NULL, or there is no row) the
  cache_hit_ratio of the report is the string N/A, which is not 0%; when the value is
  present (the text of a number, so not empty) it is that value followed by a percent sign.
\<close>

theorem cache_hit_ratio_na_or_percent:
  "cache_hit_ratio [] = ''N/A'' \<and>
   cache_hit_ratio (None # rest) = ''N/A'' \<and>
   ''N/A'' \<noteq> ''0%'' \<and>
   (v \<noteq> [] \<longrightarrow> cache_hit_ratio (Some v # rest) = v @ ''%'')"
  by (simp add: cache_hit_ratio_def)

theorem cache_hit_ratio_na_or_percent_witness:
  "cache_hit_ratio [Some ''99.53''] = ''99.53%'' \<and> cache_hit_ratio [None] = ''N/A''"
  using cache_hit_ratio_na_or_percent [of "[]" "''99.53''"]
  by simp

end
